theory Spec2Isabelle
  imports
    Complex_Main
    "HOL-Library.Product_Lexorder"
    "HOL-Library.List_Lexorder"
    "HOL-Library.Char_ord"
    "HOL-Library.Multiset"
begin

section \<open>Float64 values\<close>

text \<open>
  The program is the notebook \<^verbatim>\<open>timeseries-comparison.ipynb\<close>: a sequence of pandas
  expressions over hourly demand tables. Each pandas operation the cells use is embedded as
  a function on lists of rows, and each cell as the composition its source line writes.

  Every measurement and every computed column is a float64 column. A cell of such a column
  is a finite number, an infinity or NaN, and NaN is also the marker of a missing value.
  Addition, subtraction and division round their exact result to the nearest float64
  (ties to the even mantissa), overflow to an infinity and treat the special values as
  IEEE 754 does: a nonzero number over zero is an infinity, zero over zero is NaN, and NaN
  propagates. The sign of zero is not modelled; zero is taken as positive zero.
\<close>

datatype flt = Fin real | PInf | NInf | NaN

type_synonym val = flt

fun fneg :: "flt \<Rightarrow> flt" where
  "fneg (Fin x) = Fin (- x)"
| "fneg PInf = NInf"
| "fneg NInf = PInf"
| "fneg NaN = NaN"

text \<open>Rounding to an integer, a tie going to the even one.\<close>

definition round_half_even :: "real \<Rightarrow> int" where
  "round_half_even q =
     (let f = \<lfloor>q\<rfloor>; r = q - of_int f
      in if r < 1 / 2 then f else if 1 / 2 < r then f + 1 else if even f then f else f + 1)"

text \<open>The binary exponent of a positive number: the \<open>k\<close> between -1022 and 1023 with
  \<open>2^k \<le> x < 2^(k+1)\<close>, -1022 for a subnormal number and 1023 for a number beyond the
  largest binade; found by trying the exponents from the top.\<close>

fun find_exp :: "nat \<Rightarrow> real \<Rightarrow> int" where
  "find_exp 0 x = - 1022"
| "find_exp (Suc n) x =
     (if 2 powi (int (Suc n) - 1022) \<le> x then int (Suc n) - 1022 else find_exp n x)"

definition exponent64 :: "real \<Rightarrow> int" where
  "exponent64 x = find_exp 2045 x"

text \<open>Rounding to a multiple of \<open>2^e\<close>; a result of \<open>2^1024\<close> or more has overflowed.\<close>

definition round_at :: "int \<Rightarrow> real \<Rightarrow> flt" where
  "round_at e x =
     (let y = of_int (round_half_even (x / 2 powi e)) * 2 powi e
      in if 2 powi 1024 \<le> y then PInf else Fin y)"

text \<open>A float64 has 53 bits of mantissa: a number with exponent \<open>k\<close> is rounded to a
  multiple of \<open>2^(k-52)\<close>.\<close>

definition round_pos :: "real \<Rightarrow> flt" where
  "round_pos x = round_at (exponent64 x - 52) x"

definition round64 :: "real \<Rightarrow> flt" where
  "round64 x = (if x < 0 then fneg (round_pos (- x)) else round_pos x)"

fun fadd :: "flt \<Rightarrow> flt \<Rightarrow> flt" where
  "fadd NaN _ = NaN"
| "fadd _ NaN = NaN"
| "fadd (Fin x) (Fin y) = round64 (x + y)"
| "fadd (Fin x) PInf = PInf"
| "fadd (Fin x) NInf = NInf"
| "fadd PInf (Fin y) = PInf"
| "fadd NInf (Fin y) = NInf"
| "fadd PInf PInf = PInf"
| "fadd NInf NInf = NInf"
| "fadd PInf NInf = NaN"
| "fadd NInf PInf = NaN"

definition fsub :: "flt \<Rightarrow> flt \<Rightarrow> flt" where
  "fsub a b = fadd a (fneg b)"

fun fdiv :: "flt \<Rightarrow> flt \<Rightarrow> flt" where
  "fdiv NaN _ = NaN"
| "fdiv _ NaN = NaN"
| "fdiv (Fin x) (Fin y) =
     (if y \<noteq> 0 then round64 (x / y)
      else if x = 0 then NaN
      else if 0 < x then PInf else NInf)"
| "fdiv (Fin x) PInf = Fin 0"
| "fdiv (Fin x) NInf = Fin 0"
| "fdiv PInf (Fin y) = (if 0 \<le> y then PInf else NInf)"
| "fdiv NInf (Fin y) = (if 0 \<le> y then NInf else PInf)"
| "fdiv PInf PInf = NaN"
| "fdiv PInf NInf = NaN"
| "fdiv NInf PInf = NaN"
| "fdiv NInf NInf = NaN"

definition isna :: "flt \<Rightarrow> bool" where
  "isna d = (d = NaN)"

text \<open>The order in which a sort compares the values that are not NaN.\<close>

fun fkey :: "flt \<Rightarrow> nat \<times> real" where
  "fkey NInf = (0, 0)"
| "fkey (Fin x) = (1, x)"
| "fkey PInf = (2, 0)"
| "fkey NaN = (3, 0)"

text \<open>A value that a float64 cell can hold: a special value, or a number that rounding
  leaves as it is.\<close>

fun is_float :: "flt \<Rightarrow> bool" where
  "is_float (Fin x) = (round64 x = Fin x)"
| "is_float PInf = True"
| "is_float NInf = True"
| "is_float NaN = True"

section \<open>The tables of the notebook\<close>

text \<open>
  A timestamp is (year, month, day, hour), ordered lexicographically; strings are ordered
  lexicographically as well, which is the order of a sorted index. The cells group
  \<^verbatim>\<open>eia930_sub\<close> and \<^verbatim>\<open>eia930_ba\<close> on their key columns, and a row whose key is null
  is dropped by the grouping; these key columns are optional values. In a merge a null
  key is a key like any other, so the tables that are only merged carry plain keys.
\<close>

type_synonym timestamp = "nat \<times> nat \<times> nat \<times> nat"

definition dt_year :: "timestamp \<Rightarrow> nat" where
  "dt_year t = fst t"

definition to_period_M :: "timestamp \<Rightarrow> nat \<times> nat" where
  "to_period_M t = (fst t, fst (snd t))"

text \<open>\<^verbatim>\<open>out_eia930__hourly_subregion_demand\<close>, read into \<^verbatim>\<open>eia930_sub\<close>.\<close>

record sub_row =
  sub_balancing_authority_code_eia :: "string option"
  sub_balancing_authority_subregion_code_eia :: "string option"
  sub_datetime_utc :: "timestamp option"
  sub_demand_reported_mwh :: val
  sub_demand_imputed_pudl_mwh :: val
  sub_demand_imputed_pudl_mwh_imputation_code :: "string option"

text \<open>\<^verbatim>\<open>out_eia930__hourly_operations\<close>, read into \<^verbatim>\<open>eia930_ba\<close>.\<close>

record ba_row =
  ba_balancing_authority_code_eia :: "string option"
  ba_datetime_utc :: "timestamp option"
  ba_demand_reported_mwh :: val
  ba_demand_imputed_pudl_mwh :: val
  ba_demand_imputed_pudl_mwh_imputation_code :: "string option"

text \<open>\<^verbatim>\<open>core_eia930__hourly_operations\<close>, read into \<^verbatim>\<open>eia930_ops\<close>.\<close>

record ops_row =
  ops_balancing_authority_code_eia :: string
  ops_datetime_utc :: timestamp
  ops_demand_reported_mwh :: val

text \<open>The two FERC-714 tables \<^verbatim>\<open>new_imputed\<close> and \<^verbatim>\<open>old_imputed\<close>.\<close>

record new_imputed_row =
  new_respondent_id_ferc714 :: int
  new_datetime_utc :: timestamp
  new_demand_imputed_pudl_mwh :: val

record old_imputed_row =
  old_respondent_id_ferc714 :: int
  old_datetime_utc :: timestamp
  old_demand_mwh :: val

section \<open>The pandas operations the cells use\<close>

text \<open>\<^verbatim>\<open>Series.sum()\<close> with its defaults \<^verbatim>\<open>skipna=True, min_count=0\<close>: the missing
  values are dropped and the rest added to 0.0, so that an empty or all-missing series
  sums to the number 0. The values are added in the order of the rows, each addition
  rounded; pandas' blocked and compensated summation is not modelled.\<close>

definition dropna :: "val list \<Rightarrow> val list" where
  "dropna xs = filter (\<lambda>v. \<not> isna v) xs"

definition sum_skipna :: "val list \<Rightarrow> val" where
  "sum_skipna xs = foldl fadd (Fin 0) (dropna xs)"

text \<open>\<^verbatim>\<open>x.notnull().mean()\<close>: the mean of a boolean series, the number of true entries
  divided by the number of entries; NaN on an empty series.\<close>

definition notnull_mean :: "'a option list \<Rightarrow> flt" where
  "notnull_mean xs =
     (if xs = [] then NaN
      else round64 (real (length (filter (\<lambda>x. x \<noteq> None) xs)) / real (length xs)))"

text \<open>\<^verbatim>\<open>groupby(keys)\<close> with its defaults \<^verbatim>\<open>sort=True, dropna=True\<close>. The rows with
  a null in a key column are dropped first.\<close>

definition key2 :: "'a option \<Rightarrow> 'b option \<Rightarrow> ('a \<times> 'b) option" where
  "key2 a b = (case a of None \<Rightarrow> None | Some x \<Rightarrow> (case b of None \<Rightarrow> None | Some y \<Rightarrow> Some (x, y)))"

definition key3 :: "'a option \<Rightarrow> 'b option \<Rightarrow> 'c option \<Rightarrow> ('a \<times> 'b \<times> 'c) option" where
  "key3 a b c = (case a of None \<Rightarrow> None | Some x \<Rightarrow> map_option (Pair x) (key2 b c))"

primrec dropna_keys :: "('k option \<times> 'a) list \<Rightarrow> ('k \<times> 'a) list" where
  "dropna_keys [] = []"
| "dropna_keys (r # rows) =
     (case fst r of None \<Rightarrow> dropna_keys rows | Some k \<Rightarrow> (k, snd r) # dropna_keys rows)"

text \<open>The groups are the key values that occur in the remaining rows
  (\<^verbatim>\<open>observed=True\<close> for a categorical key), in sorted order; each group holds its rows in
  table order. A table is given as its rows, each a key and the selected columns.\<close>

definition group_keys :: "('k::linorder \<times> 'a) list \<Rightarrow> 'k list" where
  "group_keys rows = sort (remdups (map fst rows))"

definition group_rows :: "'k \<Rightarrow> ('k \<times> 'a) list \<Rightarrow> 'a list" where
  "group_rows k rows = map snd (filter (\<lambda>r. fst r = k) rows)"

definition groupby_apply :: "('a list \<Rightarrow> 'b) \<Rightarrow> ('k::linorder \<times> 'a) list \<Rightarrow> ('k \<times> 'b) list" where
  "groupby_apply f rows = map (\<lambda>k. (k, f (group_rows k rows))) (group_keys rows)"

definition groupby_sum :: "('k::linorder \<times> val) list \<Rightarrow> ('k \<times> val) list" where
  "groupby_sum rows = groupby_apply sum_skipna rows"

text \<open>\<^verbatim>\<open>groupby(keys).sum()\<close> on a table with two value columns.\<close>

definition groupby_sum2 :: "('k::linorder \<times> val \<times> val) list \<Rightarrow> ('k \<times> val \<times> val) list" where
  "groupby_sum2 rows =
     groupby_apply (\<lambda>vs. (sum_skipna (map fst vs), sum_skipna (map snd vs))) rows"

text \<open>\<^verbatim>\<open>pd.merge(left, right, how="inner")\<close> on the key: every pair of a left and a
  right row with the same key, in the order of the left rows.\<close>

definition merge_inner :: "('k \<times> 'a) list \<Rightarrow> ('k \<times> 'b) list \<Rightarrow> ('k \<times> 'a \<times> 'b) list" where
  "merge_inner left right =
     concat (map (\<lambda>l. map (\<lambda>b. (fst l, snd l, b)) (group_rows (fst l) right)) left)"

text \<open>\<^verbatim>\<open>pd.merge(left, right, how="outer")\<close> on the key: the keys of both tables in
  sorted order; a key on one side only keeps that side's rows with NaN for the other
  side, a key on both sides gives every pair of its left and right rows.\<close>

definition outer_rows :: "('k \<times> val) list \<Rightarrow> ('k \<times> val) list \<Rightarrow> 'k \<Rightarrow> ('k \<times> val \<times> val) list" where
  "outer_rows left right k =
     (let ls = group_rows k left; rs = group_rows k right
      in if rs = [] then map (\<lambda>a. (k, a, NaN)) ls
         else if ls = [] then map (\<lambda>b. (k, NaN, b)) rs
         else concat (map (\<lambda>a. map (\<lambda>b. (k, a, b)) rs) ls))"

definition merge_outer :: "('k::linorder \<times> val) list \<Rightarrow> ('k \<times> val) list \<Rightarrow> ('k \<times> val \<times> val) list" where
  "merge_outer left right =
     concat (map (outer_rows left right) (sort (remdups (map fst left @ map fst right))))"

text \<open>\<^verbatim>\<open>sort_values(col, ascending)\<close> with \<^verbatim>\<open>na_position="last"\<close>, as pandas'
  \<^verbatim>\<open>nargsort\<close> computes it: the rows whose value is NaN are set aside, the others are
  sorted (for a descending sort: reversed, sorted ascending, and reversed again), and the
  NaN rows are appended in table order. The default sort kind makes no promise on the
  order of rows with equal values; the model sorts them stably.\<close>

definition sort_values :: "bool \<Rightarrow> ('r \<Rightarrow> flt) \<Rightarrow> 'r list \<Rightarrow> 'r list" where
  "sort_values ascending col rows =
     (let non_nans = filter (\<lambda>r. \<not> isna (col r)) rows;
          nans = filter (\<lambda>r. isna (col r)) rows;
          indexer = (if ascending then sort_key (\<lambda>r. fkey (col r)) non_nans
                     else rev (sort_key (\<lambda>r. fkey (col r)) (rev non_nans)))
      in indexer @ nans)"

definition head :: "nat \<Rightarrow> 'r list \<Rightarrow> 'r list" where
  "head n rows = take n rows"

definition tail :: "nat \<Rightarrow> 'r list \<Rightarrow> 'r list" where
  "tail n rows = drop (length rows - n) rows"

section \<open>The cells\<close>

text \<open>Cells 13 and 23: the proportion of imputed values per group and year,
  \<^verbatim>\<open>groupby([...], observed=True)[code].apply(lambda x: x.notnull().mean())\<close>, then
  \<^verbatim>\<open>.sort_values(ascending=False)\<close>, and \<^verbatim>\<open>.head(50).tail(25)\<close> of it for display.\<close>

definition imputation_rate :: "('k::linorder \<times> 'c option) list \<Rightarrow> ('k \<times> flt) list" where
  "imputation_rate rows = groupby_apply notnull_mean rows"

definition bad_data_sub :: "sub_row list \<Rightarrow> ((string \<times> string \<times> nat) \<times> flt) list" where
  "bad_data_sub eia930_sub =
     sort_values False snd
       (imputation_rate
         (dropna_keys
           (map (\<lambda>r. (key3 (sub_balancing_authority_code_eia r)
                            (sub_balancing_authority_subregion_code_eia r)
                            (map_option dt_year (sub_datetime_utc r)),
                       sub_demand_imputed_pudl_mwh_imputation_code r)) eia930_sub)))"

definition bad_data_ba :: "ba_row list \<Rightarrow> ((string \<times> nat) \<times> flt) list" where
  "bad_data_ba eia930_ba =
     sort_values False snd
       (imputation_rate
         (dropna_keys
           (map (\<lambda>r. (key2 (ba_balancing_authority_code_eia r)
                            (map_option dt_year (ba_datetime_utc r)),
                       ba_demand_imputed_pudl_mwh_imputation_code r)) eia930_ba)))"

definition bad_data_shown :: "('k \<times> flt) list \<Rightarrow> ('k \<times> flt) list" where
  "bad_data_shown bad_data = tail 25 (head 50 bad_data)"

text \<open>Cell 28: \<^verbatim>\<open>eia930_ops.loc[:, [...]].set_index([code, datetime_utc])\<close>.\<close>

definition eia930_bas :: "ops_row list \<Rightarrow> ((string \<times> timestamp) \<times> val) list" where
  "eia930_bas eia930_ops =
     map (\<lambda>r. ((ops_balancing_authority_code_eia r, ops_datetime_utc r),
                ops_demand_reported_mwh r)) eia930_ops"

text \<open>Cell 29: \<^verbatim>\<open>eia930_sub.groupby([code, datetime_utc])[demand_reported_mwh].sum()\<close>.\<close>

definition eia930_sub_agg :: "sub_row list \<Rightarrow> ((string \<times> timestamp) \<times> val) list" where
  "eia930_sub_agg eia930_sub =
     groupby_sum
       (dropna_keys
         (map (\<lambda>r. (key2 (sub_balancing_authority_code_eia r) (sub_datetime_utc r),
                     sub_demand_reported_mwh r)) eia930_sub))"

text \<open>Cell 30: the inner merge of the two on their index.\<close>

definition eia930_both ::
  "((string \<times> timestamp) \<times> val) list \<Rightarrow> ((string \<times> timestamp) \<times> val) list
     \<Rightarrow> ((string \<times> timestamp) \<times> val \<times> val) list" where
  "eia930_both bas sub_agg = merge_inner bas sub_agg"

text \<open>Cells 32 and 36: the sums of both columns per group, and the column
  \<^verbatim>\<open>(t[ba] - t[sub]) / t[ba]\<close> computed from them. The keys of the merged table are
  keys of a grouped table and never null.\<close>

definition abs_diff :: "val \<Rightarrow> val \<Rightarrow> flt" where
  "abs_diff a b = fsub a b"

definition frac_diff :: "val \<Rightarrow> val \<Rightarrow> flt" where
  "frac_diff a b = fdiv (abs_diff a b) a"

definition with_frac_diff :: "('g \<times> val \<times> val) list \<Rightarrow> ('g \<times> val \<times> val \<times> flt) list" where
  "with_frac_diff totals = map (\<lambda>(g, a, b). (g, a, b, frac_diff a b)) totals"

definition grouped_frac_diff :: "('g::linorder \<times> val \<times> val) list \<Rightarrow> ('g \<times> val \<times> val \<times> flt) list" where
  "grouped_frac_diff rows = with_frac_diff (groupby_sum2 rows)"

definition ba_totals ::
  "((string \<times> timestamp) \<times> val \<times> val) list \<Rightarrow> (string \<times> val \<times> val \<times> flt) list" where
  "ba_totals both = grouped_frac_diff (map (\<lambda>((ba, t), a, b). (ba, a, b)) both)"

definition eia930_bymonth ::
  "((string \<times> timestamp) \<times> val \<times> val) list
     \<Rightarrow> ((string \<times> nat \<times> nat) \<times> val \<times> val \<times> flt) list" where
  "eia930_bymonth both =
     grouped_frac_diff (map (\<lambda>((ba, t), a, b). ((ba, to_period_M t), a, b)) both)"

definition frac_col :: "'g \<times> val \<times> val \<times> flt \<Rightarrow> flt" where
  "frac_col r = snd (snd (snd r))"

text \<open>The last line of cell 36:
  \<^verbatim>\<open>eia930_bymonth.sort_values("frac_diff", ascending=False).head(25)\<close>.\<close>

definition bymonth_top ::
  "((string \<times> timestamp) \<times> val \<times> val) list
     \<Rightarrow> ((string \<times> nat \<times> nat) \<times> val \<times> val \<times> flt) list" where
  "bymonth_top both = head 25 (sort_values False frac_col (eia930_bymonth both))"

text \<open>The two series exchanged: what the same cells compute when the roles of the
  two merged columns are swapped.\<close>

definition swap_series :: "('k \<times> val \<times> val) list \<Rightarrow> ('k \<times> val \<times> val) list" where
  "swap_series rows = map (\<lambda>(k, a, b). (k, b, a)) rows"

text \<open>Cell 42: the outer merge of the new and the old FERC-714 imputation on
  \<^verbatim>\<open>[respondent_id_ferc714, datetime_utc]\<close>.\<close>

definition ferc714_both ::
  "new_imputed_row list \<Rightarrow> old_imputed_row list \<Rightarrow> ((int \<times> timestamp) \<times> val \<times> val) list" where
  "ferc714_both new_imputed old_imputed =
     merge_outer
       (map (\<lambda>r. ((new_respondent_id_ferc714 r, new_datetime_utc r),
                   new_demand_imputed_pudl_mwh r)) new_imputed)
       (map (\<lambda>r. ((old_respondent_id_ferc714 r, old_datetime_utc r),
                   old_demand_mwh r)) old_imputed)"

section \<open>Vocabulary of the statements\<close>



text \<open>A value that is missing or a whole number, and the number it contributes to an
  exact sum and to the sum of the absolute values.\<close>

definition whole :: "val \<Rightarrow> bool" where
  "whole v = (case v of Fin x \<Rightarrow> of_int \<lfloor>x\<rfloor> = x | NaN \<Rightarrow> True | PInf \<Rightarrow> False | NInf \<Rightarrow> False)"

definition amount :: "val \<Rightarrow> int" where
  "amount v = (case v of Fin x \<Rightarrow> \<lfloor>x\<rfloor> | NaN \<Rightarrow> 0 | PInf \<Rightarrow> 0 | NInf \<Rightarrow> 0)"


section \<open>Rounding\<close>

lemma rhe_of_int [simp]: "round_half_even (of_int m) = m"
  by (simp add: round_half_even_def)

lemma rhe_ge: "of_int N \<le> q \<Longrightarrow> N \<le> round_half_even q"
proof -
  assume "of_int N \<le> q"
  then have "N \<le> \<lfloor>q\<rfloor>" by (simp add: le_floor_iff)
  then show ?thesis
    unfolding round_half_even_def Let_def by auto
qed

lemma rhe_le: "q \<le> of_int N \<Longrightarrow> round_half_even q \<le> N"
proof -
  assume a: "q \<le> of_int N"
  show ?thesis
  proof (cases "q = of_int N")
    case True
    then show ?thesis by simp
  next
    case False
    with a have "q < of_int N" by simp
    then have "\<lfloor>q\<rfloor> < N" by (simp add: floor_less_iff)
    then show ?thesis
      unfolding round_half_even_def Let_def by auto
  qed
qed

lemma find_exp_bounds: "- 1022 \<le> find_exp n x \<and> find_exp n x \<le> int n - 1022"
  by (induction n) auto

lemma find_exp_lower: "- 1022 < find_exp n x \<Longrightarrow> 2 powi (find_exp n x) \<le> x"
  by (induction n) (auto split: if_splits)

lemma find_exp_upper: "find_exp n x < int n - 1022 \<Longrightarrow> x < 2 powi (find_exp n x + 1)"
proof (induction n)
  case 0
  then show ?case by simp
next
  case (Suc n)
  show ?case
  proof (cases "2 powi (int (Suc n) - 1022) \<le> x")
    case True
    with Suc.prems show ?thesis by simp
  next
    case False
    then have eq: "find_exp (Suc n) x = find_exp n x" by simp
    show ?thesis
    proof (cases "find_exp n x < int n - 1022")
      case True
      with Suc.IH eq show ?thesis by simp
    next
      case False
      with find_exp_bounds [of n x] have "find_exp n x = int n - 1022" by linarith
      then have "find_exp (Suc n) x + 1 = int (Suc n) - 1022"
        using eq by simp
      with \<open>\<not> 2 powi (int (Suc n) - 1022) \<le> x\<close> show ?thesis
        by (simp only: not_le)
    qed
  qed
qed


lemma exponent64_bounds: "- 1022 \<le> exponent64 x \<and> exponent64 x \<le> 1023"
  using find_exp_bounds [of 2045 x] by (simp add: exponent64_def)

lemma exponent64_lower: "- 1022 < exponent64 x \<Longrightarrow> 2 powi (exponent64 x) \<le> x"
  unfolding exponent64_def by (rule find_exp_lower)

lemma exponent64_upper: "exponent64 x < 1023 \<Longrightarrow> x < 2 powi (exponent64 x + 1)"
  unfolding exponent64_def using find_exp_upper [of 2045 x] by simp

lemma powi_mono2: "a \<le> b \<Longrightarrow> (2::real) powi a \<le> 2 powi b"
  by (rule power_int_increasing) simp_all

lemma powi_less_cancel2: "(2::real) powi a < 2 powi b \<Longrightarrow> a < b"
  using powi_mono2 [of b a] by (cases "a < b") auto

text \<open>The exponent of a value in a given binade.\<close>

lemma exponent64_eq:
  assumes "- 1022 \<le> k" and "k \<le> 1023" and "k = - 1022 \<or> 2 powi k \<le> x" and "k = 1023 \<or> x < 2 powi (k + 1)"
  shows "exponent64 x = k"
proof -
  let ?e = "exponent64 x"
  have le: "?e \<le> k"
  proof (rule ccontr)
    assume "\<not> ?e \<le> k"
    then have g: "k < ?e" by simp
    with assms(1) have "- 1022 < ?e" by simp
    then have 1: "2 powi ?e \<le> x" by (rule exponent64_lower)
    from g exponent64_bounds [of x] have "k \<noteq> 1023" by simp
    with assms(4) have "x < 2 powi (k + 1)" by simp
    with 1 have "(2::real) powi ?e < 2 powi (k + 1)" by simp
    then have "?e < k + 1" by (rule powi_less_cancel2)
    with g show False by simp
  qed
  have ge: "k \<le> ?e"
  proof (rule ccontr)
    assume "\<not> k \<le> ?e"
    then have g: "?e < k" by simp
    with assms(2) have "?e < 1023" by simp
    then have 1: "x < 2 powi (?e + 1)" by (rule exponent64_upper)
    from g exponent64_bounds [of x] have "k \<noteq> - 1022" by simp
    with assms(3) have "2 powi k \<le> x" by simp
    with 1 have "(2::real) powi k < 2 powi (?e + 1)" by simp
    then have "k < ?e + 1" by (rule powi_less_cancel2)
    with g show False by simp
  qed
  from le ge show ?thesis by simp
qed

lemma powi_pos2 [simp]: "0 < (2::real) powi k"
  by (simp add: zero_less_power_int)

lemma powi_ne0 [simp]: "(2::real) powi k \<noteq> 0"
  using powi_pos2 [of k] by simp

lemma powi_div2: "(2::real) powi a / 2 powi b = 2 powi (a - b)"
  by (simp add: power_int_diff)

lemma powi_mult2: "(2::real) powi a * 2 powi b = 2 powi (a + b)"
  by (simp add: power_int_add)

lemma powi_mult2': "a + b = c \<Longrightarrow> (2::real) powi a * 2 powi b = 2 powi c"
  by (auto simp: power_int_add)

lemma powi_div2': "a - b = c \<Longrightarrow> (2::real) powi a / 2 powi b = 2 powi c"
  by (auto simp: power_int_diff)

lemma p52: "(2::real) powi 52 = of_int (2 ^ 52)"
  by simp

lemma p53: "(2::real) powi 53 = of_int (2 ^ 53)"
  by simp

lemma powi_strict_mono2: "a < b \<Longrightarrow> (2::real) powi a < 2 powi b"
  by (rule power_int_strict_increasing) simp_all

lemma powi_nonneg_int: "0 \<le> a \<Longrightarrow> (2::real) powi a = of_int (2 ^ nat a)"
  by (simp add: power_int_def)

lemma round_pos_fixed:
  assumes "x < 2 powi 1024" and "x / 2 powi (exponent64 x - 52) = of_int m"
  shows "round_pos x = Fin x"
proof -
  let ?p = "(2::real) powi (exponent64 x - 52)"
  from assms(2) have "x = of_int m * ?p"
    by (simp add: field_simps)
  then have "of_int (round_half_even (x / ?p)) * ?p = x"
    using assms(2) by simp
  with assms(1) show ?thesis
    by (simp add: round_pos_def round_at_def Let_def)
qed

lemma round_pos_cases:
  "round_pos x = PInf \<or> (\<exists>y. round_pos x = Fin y)"
  by (simp add: round_pos_def round_at_def Let_def)

lemma round_pos_nonneg:
  assumes "0 \<le> x" and "round_pos x = Fin y"
  shows "0 \<le> y"
proof -
  let ?p = "(2::real) powi (exponent64 x - 52)"
  have "of_int 0 \<le> x / ?p" using assms(1) by simp
  then have "0 \<le> round_half_even (x / ?p)" by (rule rhe_ge)
  then have "0 \<le> of_int (round_half_even (x / ?p)) * ?p" by simp
  with assms(2) show ?thesis
    by (simp add: round_pos_def round_at_def Let_def split: if_splits)
qed

lemma round_pos_idem:
  assumes "0 \<le> x" and "round_pos x = Fin y"
  shows "round_pos y = Fin y"
proof -
  define k where "k = exponent64 x"
  define p where "p = (2::real) powi (k - 52)"
  define m where "m = round_half_even (x / p)"
  have p: "0 < p" by (simp add: p_def)
  from assms(2) have y: "y = of_int m * p" and fin: "y < 2 powi 1024"
    by (simp_all add: round_pos_def round_at_def Let_def k_def p_def m_def split: if_splits)
  have kb: "- 1022 \<le> k" "k \<le> 1023"
    using exponent64_bounds [of x] by (simp_all add: k_def)
  have up: "y \<le> 2 powi (k + 1)"
  proof (cases "k < 1023")
    case True
    then have "x < 2 powi (k + 1)" unfolding k_def by (rule exponent64_upper)
    then have "x / p < 2 powi (k + 1) / p" using p by (simp add: divide_strict_right_mono)
    also have "2 powi (k + 1) / p = 2 powi 53" unfolding p_def by (rule powi_div2') simp
    also have "\<dots> = of_int (2 ^ 53)" by (rule p53)
    finally have "m \<le> 2 ^ 53" unfolding m_def by (intro rhe_le less_imp_le)
    then have "real_of_int m \<le> of_int (2 ^ 53)" by (simp only: of_int_le_iff)
    then have "of_int m * p \<le> of_int (2 ^ 53) * p"
      using p by (intro mult_right_mono) simp_all
    also have "of_int (2 ^ 53) * p = 2 powi 53 * 2 powi (k - 52)" by (simp only: p_def p53)
    also have "\<dots> = 2 powi (k + 1)" by (rule powi_mult2') simp
    finally show ?thesis by (simp only: y)
  next
    case False
    with kb have "k = 1023" by simp
    with fin show ?thesis by simp
  qed
  have low: "2 powi k \<le> y" if "- 1022 < k"
  proof -
    from that have "2 powi k \<le> x" unfolding k_def by (rule exponent64_lower)
    then have "2 powi k / p \<le> x / p" using p by (simp add: divide_right_mono)
    moreover have "2 powi k / p = 2 powi 52" unfolding p_def by (rule powi_div2') simp
    ultimately have "of_int (2 ^ 52) \<le> x / p" by (simp only: p52)
    then have "2 ^ 52 \<le> m" unfolding m_def by (rule rhe_ge)
    then have "real_of_int (2 ^ 52) \<le> of_int m" by (simp only: of_int_le_iff)
    then have "of_int (2 ^ 52) * p \<le> of_int m * p"
      using p by (intro mult_right_mono) simp_all
    moreover have "of_int (2 ^ 52) * p = 2 powi 52 * 2 powi (k - 52)" by (simp only: p_def p52)
    moreover have "\<dots> = 2 powi k" by (rule powi_mult2') simp
    ultimately show ?thesis by (simp only: y)
  qed
  show ?thesis
  proof (cases "y = 2 powi (k + 1)")
    case True
    with fin have "(2::real) powi (k + 1) < 2 powi 1024" by simp
    then have k1: "k + 1 < 1024" by (rule powi_less_cancel2)
    have e: "exponent64 y = k + 1"
    proof (rule exponent64_eq)
      show "- 1022 \<le> k + 1" using kb by simp
      show "k + 1 \<le> 1023" using k1 by simp
      show "k + 1 = - 1022 \<or> 2 powi (k + 1) \<le> y" using True by simp
      show "k + 1 = 1023 \<or> y < 2 powi (k + 1 + 1)"
        using True powi_strict_mono2 [of "k + 1" "k + 1 + 1"] by simp
    qed
    have "2 powi (k + 1) / 2 powi (k + 1 - 52) = (2::real) powi 52"
      by (rule powi_div2') simp
    then have "y / 2 powi (k + 1 - 52) = of_int (2 ^ 52)"
      by (simp only: True p52)
    then have "y / 2 powi (exponent64 y - 52) = of_int (2 ^ 52)"
      by (simp only: e)
    then show ?thesis using fin by (intro round_pos_fixed)
  next
    case False
    with up have lt: "y < 2 powi (k + 1)" by simp
    have e: "exponent64 y = k"
    proof (rule exponent64_eq)
      show "- 1022 \<le> k" "k \<le> 1023" using kb by simp_all
      show "k = - 1022 \<or> 2 powi k \<le> y" using low kb by (cases "k = - 1022") auto
      show "k = 1023 \<or> y < 2 powi (k + 1)" using lt by simp
    qed
    have "of_int m * p / p = real_of_int m"
      using p by simp
    then have "y / 2 powi (k - 52) = of_int m"
      by (simp only: y p_def)
    then have "y / 2 powi (exponent64 y - 52) = of_int m"
      by (simp only: e)
    then show ?thesis using fin by (intro round_pos_fixed)
  qed
qed

lemma round_pos_int:
  assumes "0 \<le> n" and "n \<le> 2 ^ 53"
  shows "round_pos (of_int n) = Fin (of_int n)"
proof -
  define k where "k = exponent64 (of_int n)"
  have kb: "- 1022 \<le> k" "k \<le> 1023"
    using exponent64_bounds [of "of_int n"] by (simp_all add: k_def)
  have fin: "real_of_int n < 2 powi 1024"
  proof -
    have "real_of_int n \<le> of_int (2 ^ 53)" using assms(2) by (simp only: of_int_le_iff)
    also have "\<dots> = 2 powi 53" by (rule p53 [symmetric])
    also have "\<dots> < 2 powi 1024" by (rule powi_strict_mono2) simp
    finally show ?thesis .
  qed
  have k53: "k \<le> 53"
  proof (cases "- 1022 < k")
    case True
    then have "2 powi k \<le> real_of_int n" unfolding k_def by (rule exponent64_lower)
    also have "real_of_int n \<le> of_int (2 ^ 53)" using assms(2) by (simp only: of_int_le_iff)
    also have "\<dots> = 2 powi 53" by (rule p53 [symmetric])
    also have "\<dots> < 2 powi 54" by (rule powi_strict_mono2) simp
    finally have "k < 54" by (rule powi_less_cancel2)
    then show ?thesis by simp
  next
    case False
    with kb show ?thesis by simp
  qed
  show ?thesis
  proof (cases "k = 53")
    case True
    have "- 1022 < exponent64 (real_of_int n)" using True by (simp add: k_def)
    then have "2 powi (exponent64 (real_of_int n)) \<le> real_of_int n" by (rule exponent64_lower)
    then have "2 powi 53 \<le> real_of_int n" using True by (simp only: k_def [symmetric])
    moreover have "real_of_int n \<le> of_int (2 ^ 53)" using assms(2) by (simp only: of_int_le_iff)
    ultimately have n: "real_of_int n = 2 powi 53" by (simp only: p53)
    have "exponent64 (real_of_int n) - 52 = 1" using True by (simp add: k_def)
    then have "real_of_int n / 2 powi (exponent64 (of_int n) - 52) = 2 powi 53 / 2 powi 1"
      by (simp only: n)
    also have "\<dots> = 2 powi 52" by (rule powi_div2') simp
    also have "\<dots> = of_int (2 ^ 52)" by (rule p52)
    finally show ?thesis using fin by (intro round_pos_fixed)
  next
    case False
    with k53 have "0 \<le> 52 - k" by simp
    then have "(2::real) powi (52 - k) = of_int (2 ^ nat (52 - k))" by (rule powi_nonneg_int)
    moreover have "real_of_int n / 2 powi (k - 52) = real_of_int n * 2 powi (52 - k)"
      by (simp add: power_int_diff field_simps)
    ultimately have "real_of_int n / 2 powi (exponent64 (of_int n) - 52)
        = of_int (n * 2 ^ nat (52 - k))"
      by (simp add: k_def [symmetric] del: of_int_power)
    then show ?thesis using fin by (intro round_pos_fixed)
  qed
qed

lemma round_pos_unit:
  assumes "0 \<le> x" and "x \<le> 1"
  shows "\<exists>q. round_pos x = Fin q \<and> 0 \<le> q \<and> q \<le> 1"
proof -
  define k where "k = exponent64 x"
  define p where "p = (2::real) powi (k - 52)"
  define m where "m = round_half_even (x / p)"
  have p: "0 < p" by (simp add: p_def)
  have kb: "- 1022 \<le> k" using exponent64_bounds [of x] by (simp add: k_def)
  have k0: "k \<le> 0"
  proof (cases "- 1022 < k")
    case True
    then have "2 powi k \<le> x" unfolding k_def by (rule exponent64_lower)
    also have "x < 2 powi 1" using assms(2) by simp
    finally have "k < 1" by (rule powi_less_cancel2)
    then show ?thesis by simp
  next
    case False
    with kb show ?thesis by simp
  qed
  then have "0 \<le> 52 - k" by simp
  then have q: "(2::real) powi (52 - k) = of_int (2 ^ nat (52 - k))" by (rule powi_nonneg_int)
  have "x / p = x * 2 powi (52 - k)"
    by (simp add: p_def power_int_diff field_simps)
  also have "\<dots> \<le> 1 * 2 powi (52 - k)"
    using assms(2) by (intro mult_right_mono) simp_all
  finally have "x / p \<le> of_int (2 ^ nat (52 - k))" using q by simp
  then have "m \<le> 2 ^ nat (52 - k)" unfolding m_def by (rule rhe_le)
  then have "of_int m * p \<le> of_int (2 ^ nat (52 - k)) * p"
    using p by (intro mult_right_mono) (simp_all del: of_int_power)
  also have "\<dots> = 2 powi (52 - k) * 2 powi (k - 52)" using q by (simp add: p_def)
  also have "\<dots> = 1" by (simp add: powi_mult2)
  finally have le1: "of_int m * p \<le> 1" .
  have "(1::real) < 2 powi 1024" using powi_strict_mono2 [of 0 1024] by simp
  with le1 have "\<not> 2 powi 1024 \<le> of_int m * p" by simp
  then have r: "round_pos x = Fin (of_int m * p)"
    by (simp add: round_pos_def round_at_def Let_def k_def p_def m_def)
  with assms(1) have "0 \<le> of_int m * p" by (rule round_pos_nonneg)
  with r le1 show ?thesis by blast
qed

lemma round_pos_0: "round_pos 0 = Fin 0"
  using round_pos_int [of 0] by simp

lemma round64_not_nan [simp]: "round64 x \<noteq> NaN"
  using round_pos_cases [of x] round_pos_cases [of "- x"]
  by (auto simp: round64_def)

lemma round64_0 [simp]: "round64 0 = Fin 0"
  by (simp add: round64_def round_pos_0)

lemma round64_minus: "round64 (- x) = fneg (round64 x)"
proof -
  have n: "fneg (fneg a) = a" for a by (cases a) simp_all
  consider "x < 0" | "x = 0" | "0 < x" by linarith
  then show ?thesis
    by cases (simp_all add: round64_def n round_pos_0)
qed

lemma round64_idem:
  assumes "round64 x = Fin y"
  shows "round64 y = Fin y"
proof (cases "x < 0")
  case True
  with assms have "fneg (round_pos (- x)) = Fin y" by (simp add: round64_def)
  then have r: "round_pos (- x) = Fin (- y)"
    by (cases "round_pos (- x)") simp_all
  from True have "0 \<le> - x" by simp
  from round_pos_nonneg [OF this r] round_pos_idem [OF this r]
  have "0 \<le> - y" and "round_pos (- y) = Fin (- y)" .
  then show ?thesis
    by (cases "y = 0") (simp_all add: round64_def round_pos_0)
next
  case False
  with assms have r: "round_pos x = Fin y" and x: "0 \<le> x" by (simp_all add: round64_def)
  from round_pos_nonneg [OF x r] round_pos_idem [OF x r]
  show ?thesis by (simp add: round64_def)
qed

lemma round64_int:
  assumes "\<bar>n\<bar> \<le> 2 ^ 53"
  shows "round64 (of_int n) = Fin (of_int n)"
proof (cases "n < 0")
  case True
  with assms have "round_pos (of_int (- n)) = Fin (of_int (- n))"
    by (intro round_pos_int) simp_all
  with True show ?thesis by (simp add: round64_def)
next
  case False
  with assms have "round_pos (of_int n) = Fin (of_int n)"
    by (intro round_pos_int) simp_all
  with False show ?thesis by (simp add: round64_def)
qed

lemma round64_numeral [simp]:
  "numeral n \<le> (9007199254740992::int) \<Longrightarrow> round64 (numeral n) = Fin (numeral n)"
  using round64_int [of "numeral n"] by simp

lemma round64_neg_numeral [simp]:
  "numeral n \<le> (9007199254740992::int) \<Longrightarrow> round64 (- numeral n) = Fin (- numeral n)"
  using round64_int [of "- numeral n"] by simp

lemma round64_1 [simp]: "round64 1 = Fin 1"
  using round64_int [of 1] by simp

lemma round64_unit:
  assumes "0 \<le> x" and "x \<le> 1"
  shows "\<exists>q. round64 x = Fin q \<and> 0 \<le> q \<and> q \<le> 1"
  using round_pos_unit [OF assms] assms(1) by (simp add: round64_def)

lemma round64_eval:
  assumes "0 < x" and "k = - 1022 \<or> 2 powi k \<le> x" and "k = 1023 \<or> x < 2 powi (k + 1)"
    and "- 1022 \<le> k" and "k \<le> 1023"
  shows "round64 x = round_at (k - 52) x"
proof -
  have "exponent64 x = k"
    using assms by (intro exponent64_eq) simp_all
  with assms(1) show ?thesis
    by (simp add: round64_def round_pos_def)
qed

section \<open>Float64 arithmetic\<close>

lemma is_float_round64 [simp]: "is_float (round64 x)"
  by (cases "round64 x") (simp_all add: round64_idem)

lemma is_float_fadd [simp]: "is_float (fadd a b)"
  by (cases a; cases b) simp_all


lemma is_float_foldl: "is_float acc \<Longrightarrow> is_float (foldl fadd acc vs)"
  by (induction vs arbitrary: acc) simp_all

lemma is_float_sum_skipna [simp]: "is_float (sum_skipna vs)"
  by (simp add: sum_skipna_def is_float_foldl)

lemma fneg_fneg [simp]: "fneg (fneg a) = a"
  by (cases a) simp_all

lemma fneg_eq_NaN [simp]: "fneg a = NaN \<longleftrightarrow> a = NaN"
  by (cases a) simp_all

lemma fsub_swap: "fsub b a = fneg (fsub a b)"
proof (cases a; cases b)
  fix x y assume "a = Fin x" "b = Fin y"
  moreover have "round64 (y + - x) = fneg (round64 (x + - y))"
    using round64_minus [of "x + - y"] by simp
  ultimately show ?thesis by (simp add: fsub_def)
qed (simp_all add: fsub_def)

lemma fsub_zero_left: "is_float (Fin y) \<Longrightarrow> fsub (Fin 0) (Fin y) = Fin (- y)"
  using round64_minus [of y] by (simp add: fsub_def)

lemma fsub_Fin_cases: "(\<exists>z. fsub (Fin x) (Fin y) = Fin z) \<or> fsub (Fin x) (Fin y) = PInf \<or> fsub (Fin x) (Fin y) = NInf"
  by (cases "round64 (x + - y)") (simp_all add: fsub_def)

text \<open>When the fractional difference is NaN.\<close>

lemma frac_diff_nan_iff:
  assumes "is_float b"
  shows "frac_diff a b = NaN \<longleftrightarrow>
           a = NaN \<or> b = NaN \<or> a = PInf \<or> a = NInf \<or> (a = Fin 0 \<and> b = Fin 0)"
proof (cases a)
  case (Fin x)
  show ?thesis
  proof (cases b)
    case (Fin y)
    note b = this
    show ?thesis
    proof (cases "x = 0")
      case True
      with assms b have "fsub a b = Fin (- y)"
        by (simp add: \<open>a = Fin x\<close> fsub_zero_left)
      with True show ?thesis
        by (simp add: frac_diff_def abs_diff_def \<open>a = Fin x\<close> b)
    next
      case False
      from fsub_Fin_cases [of x y] False show ?thesis
        by (auto simp: frac_diff_def abs_diff_def \<open>a = Fin x\<close> b split: if_splits)
    qed
  qed (simp_all add: frac_diff_def abs_diff_def fsub_def \<open>a = Fin x\<close>)
next
  case PInf
  then show ?thesis
    by (cases b) (simp_all add: frac_diff_def abs_diff_def fsub_def)
next
  case NInf
  then show ?thesis
    by (cases b) (simp_all add: frac_diff_def abs_diff_def fsub_def)
next
  case NaN
  then show ?thesis
    by (simp add: frac_diff_def abs_diff_def fsub_def)
qed

lemma frac_diff_zero_sumA:
  assumes "is_float (Fin y)" and "y \<noteq> 0"
  shows "frac_diff (Fin 0) (Fin y) = (if y < 0 then PInf else NInf)"
  using assms by (simp add: frac_diff_def abs_diff_def fsub_zero_left)

lemma frac_diff_Fin:
  "x \<noteq> 0 \<Longrightarrow> frac_diff (Fin x) (Fin y) = fdiv (round64 (x - y)) (Fin x)"
  by (simp add: frac_diff_def abs_diff_def fsub_def)

section \<open>Grouping\<close>

lemma set_group_keys: "set (group_keys rows) = fst ` set rows"
  by (simp add: group_keys_def)

lemma distinct_group_keys: "distinct (group_keys rows)"
  by (simp add: group_keys_def)

lemma map_of_groupby_apply:
  "map_of (groupby_apply f rows) g =
     (if g \<in> fst ` set rows then Some (f (group_rows g rows)) else None)"
proof -
  have "map_of (map (\<lambda>k. (k, f (group_rows k rows))) ks) g =
          (if g \<in> set ks then Some (f (group_rows g rows)) else None)" for ks
    by (induction ks) auto
  then show ?thesis
    by (simp add: groupby_apply_def set_group_keys)
qed

lemma sum_list_group_rows:
  "sum_list (map h (group_rows k rows))
     = (\<Sum>r\<leftarrow>rows. if fst r = k then h (snd r) else (0::int))"
  unfolding group_rows_def by (induction rows) auto

lemma sum_list_over_keys:
  assumes "distinct ks" and "fst ` set rows \<subseteq> set ks"
  shows "(\<Sum>k\<leftarrow>ks. \<Sum>r\<leftarrow>rows. if fst r = k then h (snd r) else (0::int)) = (\<Sum>r\<leftarrow>rows. h (snd r))"
  using assms(2)
proof (induction rows)
  case Nil
  then show ?case by simp
next
  case (Cons r rows)
  have one: "(\<Sum>k\<leftarrow>ks. if fst r = k then h (snd r) else 0) = h (snd r)"
  proof -
    have "fst r \<in> set ks" using Cons.prems by auto
    moreover have "(\<Sum>k\<leftarrow>ks. if fst r = k then h (snd r) else 0)
        = (\<Sum>k\<in>set ks. if fst r = k then h (snd r) else 0)"
      using assms(1) by (simp add: sum_list_distinct_conv_sum_set)
    ultimately show ?thesis by simp
  qed
  have "(\<Sum>k\<leftarrow>ks. \<Sum>r'\<leftarrow>r # rows. if fst r' = k then h (snd r') else 0)
      = (\<Sum>k\<leftarrow>ks. if fst r = k then h (snd r) else 0)
        + (\<Sum>k\<leftarrow>ks. \<Sum>r'\<leftarrow>rows. if fst r' = k then h (snd r') else 0)"
    by (simp add: sum_list_addf)
  also have "\<dots> = h (snd r) + (\<Sum>r'\<leftarrow>rows. h (snd r'))"
    using one Cons by simp
  finally show ?case by simp
qed

lemma sum_list_groups:
  "(\<Sum>k\<leftarrow>group_keys rows. sum_list (map h (group_rows k rows))) = (\<Sum>r\<leftarrow>rows. (h (snd r) :: int))"
  unfolding sum_list_group_rows
  by (rule sum_list_over_keys) (simp_all add: distinct_group_keys set_group_keys)

lemma dropna_append: "dropna (xs @ ys) = dropna xs @ dropna ys"
  by (simp add: dropna_def)







lemma group_rows_nonempty: "k \<in> fst ` set rows \<Longrightarrow> group_rows k rows \<noteq> []"
  by (auto simp: group_rows_def filter_empty_conv)




text \<open>Sums of whole numbers that stay within 53 bits are exact.\<close>

lemma foldl_fadd_whole:
  assumes "\<forall>v \<in> set vs. whole v" and "\<bar>a\<bar> + (\<Sum>v\<leftarrow>vs. \<bar>amount v\<bar>) \<le> 2 ^ 53"
  shows "foldl fadd (Fin (of_int a)) (dropna vs) = Fin (of_int (a + (\<Sum>v\<leftarrow>vs. amount v)))"
  using assms
proof (induction vs arbitrary: a)
  case Nil
  then show ?case by (simp add: dropna_def)
next
  case (Cons v vs)
  from Cons.prems(1) have w: "whole v" and ws: "\<forall>v \<in> set vs. whole v" by simp_all
  show ?case
  proof (cases v)
    case (Fin x)
    with w have "of_int \<lfloor>x\<rfloor> = x" by (simp only: whole_def flt.case)
    then have x: "x = of_int \<lfloor>x\<rfloor>" by (rule sym)
    have am: "amount v = \<lfloor>x\<rfloor>" by (simp add: Fin amount_def)
    from Cons.prems(2) have b: "\<bar>a + \<lfloor>x\<rfloor>\<bar> + (\<Sum>v\<leftarrow>vs. \<bar>amount v\<bar>) \<le> 2 ^ 53"
      by (simp add: am)
    have nn: "0 \<le> (\<Sum>v\<leftarrow>vs. \<bar>amount v\<bar>)" by (rule sum_list_nonneg) auto
    with b have "\<bar>a + \<lfloor>x\<rfloor>\<bar> \<le> 2 ^ 53" by linarith
    then have "round64 (of_int (a + \<lfloor>x\<rfloor>)) = Fin (of_int (a + \<lfloor>x\<rfloor>))" by (rule round64_int)
    moreover have "real_of_int a + x = of_int (a + \<lfloor>x\<rfloor>)" using x by simp
    ultimately have step: "fadd (Fin (of_int a)) v = Fin (of_int (a + \<lfloor>x\<rfloor>))"
      by (simp only: Fin fadd.simps)
    have "foldl fadd (Fin (of_int a)) (dropna (v # vs))
        = foldl fadd (fadd (Fin (of_int a)) v) (dropna vs)"
      by (simp add: dropna_def isna_def Fin)
    also have "\<dots> = foldl fadd (Fin (of_int (a + \<lfloor>x\<rfloor>))) (dropna vs)"
      by (simp only: step)
    also have "\<dots> = Fin (of_int (a + \<lfloor>x\<rfloor> + (\<Sum>v\<leftarrow>vs. amount v)))"
      by (rule Cons.IH [OF ws b])
    also have "a + \<lfloor>x\<rfloor> + (\<Sum>v\<leftarrow>vs. amount v) = a + (\<Sum>v\<leftarrow>v # vs. amount v)"
      by (simp only: list.map sum_list.Cons am add.assoc)
    finally show ?thesis .
  next
    case NaN
    with Cons.IH [OF ws, of a] Cons.prems(2) show ?thesis
      by (simp add: dropna_def isna_def amount_def)
  next
    case PInf
    with w show ?thesis by (simp add: whole_def)
  next
    case NInf
    with w show ?thesis by (simp add: whole_def)
  qed
qed

lemma sum_skipna_whole:
  assumes "\<forall>v \<in> set vs. whole v" and "(\<Sum>v\<leftarrow>vs. \<bar>amount v\<bar>) \<le> 2 ^ 53"
  shows "sum_skipna vs = Fin (of_int (\<Sum>v\<leftarrow>vs. amount v))"
  using foldl_fadd_whole [of vs 0] assms by (simp add: sum_skipna_def)

lemma dropna_keys_no_null:
  "\<forall>r \<in> set rows. fst r \<noteq> None \<Longrightarrow> map snd (dropna_keys rows) = map snd rows"
  by (induction rows) (auto split: option.splits)

lemma sum_list_filter_le:
  "(\<Sum>r\<leftarrow>rows. if P r then \<bar>h r\<bar> else (0::int)) \<le> (\<Sum>r\<leftarrow>rows. \<bar>h r\<bar>)"
  by (rule sum_list_mono) simp

section \<open>Grouped sums\<close>

text \<open>
  Claim C5, as cell 29 computes it. The grouped sums of
  \<^verbatim>\<open>groupby(keys)[v].sum()\<close>, added up over all groups, equal the sum of the value
  column over the whole table when no row has a null key and no addition rounds: when
  every value that is present is a whole number and the absolute values add up to at most
  \<open>2^53\<close>. A row with a null key is in no group, and rounded sums depend on the order
  of the additions.
\<close>

theorem groupby_sum_conserves_exact_total:
  assumes "\<forall>r \<in> set rows. fst r \<noteq> None"
    and "\<forall>r \<in> set rows. whole (snd r)"
    and "(\<Sum>r\<leftarrow>rows. \<bar>amount (snd r)\<bar>) \<le> 2 ^ 53"
  shows "sum_skipna (map snd (groupby_sum (dropna_keys rows))) = sum_skipna (map snd rows)"
proof -
  define R where "R = dropna_keys rows"
  define S where "S k = (\<Sum>v\<leftarrow>group_rows k R. amount v)" for k
  have vals: "map snd R = map snd rows"
    unfolding R_def using assms(1) by (rule dropna_keys_no_null)
  have "snd ` set R = snd ` set rows"
    using arg_cong [OF vals, of set] by simp
  with assms(2) have w: "\<forall>r \<in> set R. whole (snd r)"
    by (metis imageE imageI)
  have "(\<Sum>r\<leftarrow>R. \<bar>amount (snd r)\<bar>) = (\<Sum>v\<leftarrow>map snd R. \<bar>amount v\<bar>)"
    by (simp add: comp_def)
  also have "\<dots> = (\<Sum>r\<leftarrow>rows. \<bar>amount (snd r)\<bar>)"
    by (simp add: vals comp_def)
  finally have tot: "(\<Sum>r\<leftarrow>R. \<bar>amount (snd r)\<bar>) \<le> 2 ^ 53"
    using assms(3) by simp
  have grp: "sum_skipna (group_rows k R) = Fin (of_int (S k))" for k
    unfolding S_def
  proof (rule sum_skipna_whole)
    show "\<forall>v \<in> set (group_rows k R). whole v"
      using w by (auto simp: group_rows_def)
    have "(\<Sum>v\<leftarrow>group_rows k R. \<bar>amount v\<bar>)
        = (\<Sum>r\<leftarrow>R. if fst r = k then \<bar>amount (snd r)\<bar> else 0)"
      by (rule sum_list_group_rows)
    also have "\<dots> \<le> (\<Sum>r\<leftarrow>R. \<bar>amount (snd r)\<bar>)"
      by (rule sum_list_mono) simp
    finally show "(\<Sum>v\<leftarrow>group_rows k R. \<bar>amount v\<bar>) \<le> 2 ^ 53"
      using tot by simp
  qed
  have gs: "map snd (groupby_sum R) = map (\<lambda>k. Fin (of_int (S k))) (group_keys R)"
    by (simp add: groupby_sum_def groupby_apply_def comp_def grp)
  have am: "amount (Fin (of_int s)) = s" for s
    by (simp add: amount_def)
  have "(\<Sum>k\<leftarrow>group_keys R. \<bar>S k\<bar>) \<le> (\<Sum>k\<leftarrow>group_keys R. \<Sum>v\<leftarrow>group_rows k R. \<bar>amount v\<bar>)"
  proof (rule sum_list_mono)
    fix k
    show "\<bar>S k\<bar> \<le> (\<Sum>v\<leftarrow>group_rows k R. \<bar>amount v\<bar>)"
      unfolding S_def using sum_list_abs [of "map amount (group_rows k R)"]
      by (simp add: comp_def)
  qed
  also have "\<dots> = (\<Sum>r\<leftarrow>R. \<bar>amount (snd r)\<bar>)"
    by (rule sum_list_groups)
  finally have b: "(\<Sum>k\<leftarrow>group_keys R. \<bar>S k\<bar>) \<le> 2 ^ 53"
    using tot by simp
  have "sum_skipna (map snd (groupby_sum R))
      = Fin (of_int (\<Sum>v\<leftarrow>map (\<lambda>k. Fin (of_int (S k))) (group_keys R). amount v))"
    unfolding gs
  proof (rule sum_skipna_whole)
    show "\<forall>v \<in> set (map (\<lambda>k. Fin (real_of_int (S k))) (group_keys R)). whole v"
      by (simp add: whole_def)
    show "(\<Sum>v\<leftarrow>map (\<lambda>k. Fin (real_of_int (S k))) (group_keys R). \<bar>amount v\<bar>) \<le> 2 ^ 53"
      using b by (simp add: comp_def am)
  qed
  also have "(\<Sum>v\<leftarrow>map (\<lambda>k. Fin (of_int (S k))) (group_keys R). amount v)
      = (\<Sum>k\<leftarrow>group_keys R. S k)"
    by (simp add: comp_def am)
  also have "\<dots> = (\<Sum>r\<leftarrow>R. amount (snd r))"
    unfolding S_def by (rule sum_list_groups)
  also have "\<dots> = (\<Sum>v\<leftarrow>map snd R. amount v)"
    by (simp add: comp_def)
  finally have lhs: "sum_skipna (map snd (groupby_sum R))
      = Fin (of_int (\<Sum>v\<leftarrow>map snd R. amount v))" .
  have "sum_skipna (map snd R) = Fin (of_int (\<Sum>v\<leftarrow>map snd R. amount v))"
  proof (rule sum_skipna_whole)
    show "\<forall>v \<in> set (map snd R). whole v" using w by simp
    show "(\<Sum>v\<leftarrow>map snd R. \<bar>amount v\<bar>) \<le> 2 ^ 53"
      using tot by (simp add: comp_def)
  qed
  with lhs have "sum_skipna (map snd (groupby_sum R)) = sum_skipna (map snd R)" by simp
  then show ?thesis by (simp only: R_def [symmetric] vals)
qed

theorem groupby_sum_conserves_exact_total_witness:
  "list_all (\<lambda>r. fst r \<noteq> None \<and> whole (snd r))
      [(Some ''PJM'', Fin 3), (Some ''CISO'', NaN), (Some ''PJM'', Fin 5), (Some ''CISO'', Fin 2)]
   \<and> (\<Sum>r\<leftarrow>[(Some ''PJM'', Fin 3), (Some ''CISO'', NaN), (Some ''PJM'', Fin 5), (Some ''CISO'', Fin 2)].
         \<bar>amount (snd r)\<bar>) = 10
   \<and> sum_skipna (map snd (groupby_sum (dropna_keys
      [(Some ''PJM'', Fin 3), (Some ''CISO'', NaN), (Some ''PJM'', Fin 5), (Some ''CISO'', Fin 2)])))
     = Fin 10"
  using groupby_sum_conserves_exact_total
    [of "[(Some ''PJM'', Fin 3), (Some ''CISO'', NaN), (Some ''PJM'', Fin 5), (Some ''CISO'', Fin 2)]"]
  by (simp add: whole_def amount_def sum_skipna_def dropna_def isna_def)

text \<open>
  Two tables on which the two totals differ. In the first the additions round: the
  groups A and B sum to 0 and 2, the column to \<open>(((1e16 + 1) - 1e16) + 1) = 1\<close>, since
  \<open>1e16 + 1\<close> is rounded to \<open>1e16\<close>. In the second a row has a null key: the one
  group sums to 2, the column to 3.
\<close>

theorem groupby_sum_total_counterexample:
  "sum_skipna (map snd (groupby_sum (dropna_keys
      [(Some ''A'', Fin 10000000000000000), (Some ''B'', Fin 1),
       (Some ''A'', Fin (- 10000000000000000)), (Some ''B'', Fin 1)]))) = Fin 2
   \<and> sum_skipna (map snd
      [(Some ''A'', Fin 10000000000000000), (Some ''B'', Fin 1),
       (Some ''A'', Fin (- 10000000000000000)), (Some ''B'', Fin 1)]) = Fin 1
   \<and> sum_skipna (map snd (groupby_sum (dropna_keys
      [(None :: string option, Fin 1), (Some ''A'', Fin 2)]))) = Fin 2
   \<and> sum_skipna (map snd [(None :: string option, Fin 1), (Some ''A'', Fin 2)]) = Fin 3"
proof -
  have a: "round64 10000000000000000 = Fin 10000000000000000"
    using round64_eval [of 10000000000000000 53]
    by (simp add: round_at_def round_half_even_def Let_def)
  have b: "round64 10000000000000001 = Fin 10000000000000000"
    using round64_eval [of 10000000000000001 53]
    by (simp add: round_at_def round_half_even_def Let_def)
  show ?thesis
    by (simp add: groupby_sum_def groupby_apply_def group_keys_def group_rows_def
        sum_skipna_def dropna_def isna_def a b)
qed





section \<open>Merging\<close>

lemma merge_inner_sound:
  "(k, a, b) \<in> set (merge_inner left right) \<Longrightarrow> (k, a) \<in> set left \<and> (k, b) \<in> set right"
  by (auto simp: merge_inner_def group_rows_def)

lemma group_rows_concat:
  "group_rows k (concat xss) = concat (map (group_rows k) xss)"
  by (induction xss) (simp_all add: group_rows_def)

lemma fst_outer_rows: "r \<in> set (outer_rows left right k') \<Longrightarrow> fst r = k'"
  by (auto simp: outer_rows_def Let_def split: if_splits)

lemma group_rows_outer_rows:
  "length (group_rows k (outer_rows left right k'))
     = (if k = k' then length (outer_rows left right k) else 0)"
proof -
  have "filter (\<lambda>r. fst r = k) (outer_rows left right k')
        = (if k = k' then outer_rows left right k else [])"
    using fst_outer_rows [of _ left right k']
    by (auto simp: filter_empty_conv intro!: filter_True)
  then show ?thesis by (simp add: group_rows_def)
qed

lemma length_concat_pairs:
  "length (concat (map (\<lambda>a. map (\<lambda>b. h a b) rs) ls)) = length ls * length rs"
  by (induction ls) simp_all

lemma length_outer_rows:
  "length (outer_rows left right k)
     = (if group_rows k right = [] then length (group_rows k left)
        else if group_rows k left = [] then length (group_rows k right)
        else length (group_rows k left) * length (group_rows k right))"
  by (simp add: outer_rows_def Let_def length_concat_pairs)

lemma count_over_keys:
  assumes "distinct ks"
  shows "length (concat (map (\<lambda>k'. group_rows k (outer_rows left right k')) ks))
       = (if k \<in> set ks then length (outer_rows left right k) else 0)"
  using assms by (induction ks) (auto simp: group_rows_outer_rows)

lemma merge_outer_count:
  "length (group_rows k (merge_outer left right))
     = (if k \<in> fst ` set left \<union> fst ` set right then length (outer_rows left right k) else 0)"
proof -
  have "length (group_rows k (merge_outer left right))
      = length (concat (map (\<lambda>k'. group_rows k (outer_rows left right k'))
          (sort (remdups (map fst left @ map fst right)))))"
    by (simp add: merge_outer_def group_rows_concat comp_def)
  also have "\<dots> = (if k \<in> set (sort (remdups (map fst left @ map fst right)))
                    then length (outer_rows left right k) else 0)"
    by (rule count_over_keys) simp
  finally show ?thesis by simp
qed

text \<open>
  Claim C4, as the merges compute it. Every row of an inner merge joins a row of the left
  table and a row of the right table that carry its key, so its (group key, timestamp)
  pair is present in both tables. In an outer merge every key of either table appears at
  least once, and exactly once when each table holds it at most once; a key that a table
  holds several times is repeated, once for every pair of its left and right rows.
\<close>

theorem merge_keys:
  "(\<forall>(k, a, b) \<in> set (merge_inner left right). (k, a) \<in> set left \<and> (k, b) \<in> set right)
   \<and> (\<forall>k \<in> fst ` set left \<union> fst ` set right.
        1 \<le> length (group_rows k (merge_outer left right))
        \<and> (length (group_rows k left) \<le> 1 \<and> length (group_rows k right) \<le> 1
             \<longrightarrow> length (group_rows k (merge_outer left right)) = 1))"
proof -
  have inner: "\<forall>(k, a, b) \<in> set (merge_inner left right). (k, a) \<in> set left \<and> (k, b) \<in> set right"
    using merge_inner_sound by fastforce
  have outer: "1 \<le> length (group_rows k (merge_outer left right))
        \<and> (length (group_rows k left) \<le> 1 \<and> length (group_rows k right) \<le> 1
             \<longrightarrow> length (group_rows k (merge_outer left right)) = 1)"
    if k: "k \<in> fst ` set left \<union> fst ` set right" for k
  proof -
    let ?l = "length (group_rows k left)" and ?r = "length (group_rows k right)"
    have n: "length (group_rows k (merge_outer left right))
           = (if ?r = 0 then ?l else if ?l = 0 then ?r else ?l * ?r)"
      using k by (simp add: merge_outer_count length_outer_rows)
    have pos: "0 < ?l \<or> 0 < ?r"
      using k group_rows_nonempty [of k left] group_rows_nonempty [of k right] by auto
    have 1: "1 \<le> (if ?r = 0 then ?l else if ?l = 0 then ?r else ?l * ?r)"
      using pos by (auto simp: Suc_le_eq)
    have 2: "(if ?r = 0 then ?l else if ?l = 0 then ?r else ?l * ?r) = 1"
      if "?l \<le> 1 \<and> ?r \<le> 1"
    proof -
      from that have "?l = 0 \<or> ?l = 1" and "?r = 0 \<or> ?r = 1" by linarith+
      with pos show ?thesis by auto
    qed
    from 1 2 show ?thesis unfolding n by blast
  qed
  from inner outer show ?thesis by blast
qed

theorem merge_keys_witness:
  "((''PJM'', (2019, 1, 1, 1)), Fin 5, Fin 4)
      \<in> set (eia930_both [((''PJM'', (2019, 1, 1, 1)), Fin 5), ((''PJM'', (2019, 1, 1, 2)), Fin 6)]
                          [((''PJM'', (2019, 1, 1, 1)), Fin 4)])
   \<and> ((''PJM'', (2019, 1, 1, 1)), Fin 5)
      \<in> set [((''PJM'', (2019, 1, 1, 1)), Fin 5), ((''PJM'', (2019, 1, 1, 2)), Fin 6)]
   \<and> ((7, (2019, 1, 1, 2)) :: int \<times> timestamp)
      \<in> fst ` set [((7, (2019, 1, 1, 1)), Fin 10), ((7, (2019, 1, 1, 2)), Fin 11)]
        \<union> fst ` set [((7, (2019, 1, 1, 1)), Fin 12)]
   \<and> length (group_rows (7, (2019, 1, 1, 2))
        [((7 :: int, (2019, 1, 1, 1) :: timestamp), Fin 10), ((7, (2019, 1, 1, 2)), Fin 11)]) \<le> 1
   \<and> length (group_rows (7, (2019, 1, 1, 2))
        [((7 :: int, (2019, 1, 1, 1) :: timestamp), Fin 12 :: val)]) \<le> 1
   \<and> length (group_rows (7, (2019, 1, 1, 2))
        (merge_outer [((7 :: int, (2019, 1, 1, 1) :: timestamp), Fin 10), ((7, (2019, 1, 1, 2)), Fin 11)]
                     [((7, (2019, 1, 1, 1)), Fin 12)])) = 1"
  using merge_keys
    [of "[((7 :: int, (2019, 1, 1, 1) :: timestamp), Fin 10), ((7, (2019, 1, 1, 2)), Fin 11)]"
        "[((7, (2019, 1, 1, 1)), Fin 12)]"]
  by (simp add: eia930_both_def merge_inner_def group_rows_def)

text \<open>
  The outer merge of cell 42 on a table that holds one (respondent, timestamp) pair in two
  rows: the pair appears twice in the result.
\<close>

theorem merge_outer_duplicate_counterexample:
  "length (group_rows (7, (2019, 1, 1, 1)) (ferc714_both
     [\<lparr>new_respondent_id_ferc714 = 7, new_datetime_utc = (2019, 1, 1, 1),
       new_demand_imputed_pudl_mwh = Fin 10\<rparr>,
      \<lparr>new_respondent_id_ferc714 = 7, new_datetime_utc = (2019, 1, 1, 1),
       new_demand_imputed_pudl_mwh = Fin 11\<rparr>]
     [\<lparr>old_respondent_id_ferc714 = 7, old_datetime_utc = (2019, 1, 1, 1),
       old_demand_mwh = Fin 12\<rparr>])) = 2"
  by (simp add: ferc714_both_def merge_outer_def outer_rows_def group_rows_def)

section \<open>Fractional differences\<close>

lemma grouped_frac_diff_rows:
  assumes "(g, a, b, d) \<in> set (grouped_frac_diff rows)"
  shows "is_float a \<and> is_float b \<and> d = frac_diff a b"
  using assms
  by (auto simp: grouped_frac_diff_def with_frac_diff_def groupby_sum2_def groupby_apply_def)

lemma group_keys_swap: "group_keys (swap_series rows) = group_keys rows"
  by (simp add: group_keys_def swap_series_def comp_def case_prod_beta)

lemma group_rows_swap:
  "group_rows k (swap_series rows) = map (\<lambda>(a, b). (b, a)) (group_rows k rows)"
  unfolding group_rows_def swap_series_def by (induction rows) auto

lemma groupby_sum2_swap: "groupby_sum2 (swap_series rows) = swap_series (groupby_sum2 rows)"
proof -
  have "groupby_sum2 (swap_series rows)
      = map (\<lambda>k. (k, sum_skipna (map snd (group_rows k rows)), sum_skipna (map fst (group_rows k rows))))
          (group_keys rows)"
    unfolding groupby_sum2_def groupby_apply_def group_keys_swap group_rows_swap
    by (simp add: comp_def case_prod_beta)
  also have "\<dots> = swap_series (groupby_sum2 rows)"
    by (simp add: groupby_sum2_def groupby_apply_def swap_series_def)
  finally show ?thesis .
qed

lemma grouped_frac_diff_swap:
  "grouped_frac_diff (swap_series rows)
     = map (\<lambda>(g, a, b, d). (g, b, a, frac_diff b a)) (grouped_frac_diff rows)"
  unfolding grouped_frac_diff_def groupby_sum2_swap
  by (simp add: with_frac_diff_def swap_series_def comp_def case_prod_beta)

text \<open>
  Claim C1, as cells 32 and 36 compute it. The fractional difference
  \<open>(sumA - sumB) / sumA\<close> of a record is NaN exactly when both sums are zero, or
  \<open>sumA\<close> is an infinity (a sum that has overflowed), or one of the sums is NaN. When
  \<open>sumA\<close> is zero and \<open>sumB\<close> is a number that is not zero, it is an infinity:
  \<open>+inf\<close> for a negative \<open>sumB\<close>, \<open>-inf\<close> for a positive one. When \<open>sumA\<close> is
  a number that is not zero and \<open>sumB\<close> is a number, it is the float64 quotient of the
  rounded difference by \<open>sumA\<close>, which is not NaN: a number, or an infinity when the
  difference or the quotient overflows.
\<close>

theorem frac_diff_zero_denominator:
  "\<forall>(g, a, b, d) \<in> set (grouped_frac_diff rows).
     (d = NaN \<longleftrightarrow> a = NaN \<or> b = NaN \<or> a = PInf \<or> a = NInf \<or> (a = Fin 0 \<and> b = Fin 0))
     \<and> (\<forall>y. a = Fin 0 \<and> b = Fin y \<and> y \<noteq> 0 \<longrightarrow> d = (if y < 0 then PInf else NInf))
     \<and> (\<forall>x y. a = Fin x \<and> x \<noteq> 0 \<and> b = Fin y
            \<longrightarrow> d = fdiv (round64 (x - y)) (Fin x) \<and> d \<noteq> NaN)"
proof -
  have "(d = NaN \<longleftrightarrow> a = NaN \<or> b = NaN \<or> a = PInf \<or> a = NInf \<or> (a = Fin 0 \<and> b = Fin 0))
     \<and> (\<forall>y. a = Fin 0 \<and> b = Fin y \<and> y \<noteq> 0 \<longrightarrow> d = (if y < 0 then PInf else NInf))
     \<and> (\<forall>x y. a = Fin x \<and> x \<noteq> 0 \<and> b = Fin y
            \<longrightarrow> d = fdiv (round64 (x - y)) (Fin x) \<and> d \<noteq> NaN)"
    if "(g, a, b, d) \<in> set (grouped_frac_diff rows)" for g a b d
  proof -
    from grouped_frac_diff_rows [OF that]
    have fb: "is_float b" and d: "d = frac_diff a b" by simp_all
    have 1: "d = NaN \<longleftrightarrow> a = NaN \<or> b = NaN \<or> a = PInf \<or> a = NInf \<or> (a = Fin 0 \<and> b = Fin 0)"
      unfolding d using fb by (rule frac_diff_nan_iff)
    have 2: "d = (if y < 0 then PInf else NInf)" if "a = Fin 0 \<and> b = Fin y \<and> y \<noteq> 0" for y
      using that fb frac_diff_zero_sumA [of y] by (simp add: d)
    have 3: "d = fdiv (round64 (x - y)) (Fin x) \<and> d \<noteq> NaN"
      if "a = Fin x \<and> x \<noteq> 0 \<and> b = Fin y" for x y
      using that 1 by (simp add: d frac_diff_Fin)
    from 1 2 3 show ?thesis by blast
  qed
  then show ?thesis by blast
qed

theorem frac_diff_zero_denominator_witness:
  "(''X'', Fin 200, Fin 180, round64 (1 / 10)) \<in> set (grouped_frac_diff
      [(''X'', Fin 100, Fin 90), (''Y'', Fin 0, Fin 0), (''X'', Fin 100, Fin 90)])
   \<and> (''Y'', Fin 0, Fin 0, NaN) \<in> set (grouped_frac_diff
      [(''X'', Fin 100, Fin 90), (''Y'', Fin 0, Fin 0), (''X'', Fin 100, Fin 90)])
   \<and> round64 (1 / 10) = fdiv (round64 (200 - 180)) (Fin 200)
   \<and> round64 (1 / 10) \<noteq> NaN"
  using frac_diff_zero_denominator
    [of "[(''X'', Fin 100, Fin 90), (''Y'', Fin 0, Fin 0), (''X'', Fin 100, Fin 90)]"]
  by (simp add: grouped_frac_diff_def with_frac_diff_def groupby_sum2_def groupby_apply_def
      group_keys_def group_rows_def sum_skipna_def dropna_def isna_def
      frac_diff_def abs_diff_def fsub_def)

text \<open>
  Series A is 0 and series B is 5 at the one timestamp of authority Y. Merged and summed
  as cells 30 and 32 do, the denominator sum is zero and the fractional difference is
  \<open>-inf\<close>, not NaN. And series A is \<open>2^1023\<close> at both timestamps of authority Y,
  series B is 1: the denominator sum overflows to \<open>+inf\<close>, which is not zero, and the
  fractional difference is NaN.
\<close>

theorem zero_denominator_infinity_counterexample:
  "ba_totals (eia930_both [((''Y'', (2019, 1, 1, 1)), Fin 0)]
                          [((''Y'', (2019, 1, 1, 1)), Fin 5)])
     = [(''Y'', Fin 0, Fin 5, NInf)]
   \<and> NInf \<noteq> NaN
   \<and> ba_totals (eia930_both
        [((''Y'', (2019, 1, 1, 1)), Fin (2 ^ 1023)), ((''Y'', (2019, 1, 1, 2)), Fin (2 ^ 1023))]
        [((''Y'', (2019, 1, 1, 1)), Fin 1), ((''Y'', (2019, 1, 1, 2)), Fin 1)])
     = [(''Y'', PInf, Fin 2, NaN)]"
proof -
  have a: "round64 (2 ^ 1023) = Fin (2 ^ 1023)"
    using round64_eval [of "2 ^ 1023" 1023]
    by (simp add: round_at_def round_half_even_def Let_def)
  have b: "round64 (2 ^ 1023 + 2 ^ 1023) = PInf"
    using round64_eval [of "2 ^ 1023 + 2 ^ 1023" 1023]
    by (simp add: round_at_def round_half_even_def Let_def)
  have 1: "ba_totals (eia930_both [((''Y'', (2019, 1, 1, 1)), Fin 0)]
                          [((''Y'', (2019, 1, 1, 1)), Fin 5)])
     = [(''Y'', Fin 0, Fin 5, NInf)]"
    by (simp add: ba_totals_def eia930_both_def merge_inner_def group_rows_def
      grouped_frac_diff_def with_frac_diff_def groupby_sum2_def groupby_apply_def
      group_keys_def sum_skipna_def dropna_def isna_def frac_diff_def abs_diff_def fsub_def)
  have 2: "ba_totals (eia930_both
        [((''Y'', (2019, 1, 1, 1)), Fin (2 ^ 1023)), ((''Y'', (2019, 1, 1, 2)), Fin (2 ^ 1023))]
        [((''Y'', (2019, 1, 1, 1)), Fin 1), ((''Y'', (2019, 1, 1, 2)), Fin 1)])
     = [(''Y'', PInf, Fin 2, NaN)]"
    using a b
    by (simp add: ba_totals_def eia930_both_def merge_inner_def group_rows_def
      grouped_frac_diff_def with_frac_diff_def groupby_sum2_def groupby_apply_def
      group_keys_def sum_skipna_def dropna_def isna_def frac_diff_def abs_diff_def fsub_def)
  from 1 2 show ?thesis by simp
qed

text \<open>
  Claim C2, as cells 32 and 36 compute it. With the two series exchanged the groups are the
  same and the two sums change places, and the difference of the sums is negated. When
  both sums are numbers, the fractional difference is NaN in one order exactly when it is
  NaN in the other. When both sums are numbers that are not zero and their difference is
  computed without rounding, the fractional difference \<open>d\<close> is the float64 nearest to
  the exact quotient \<open>D = (sumA - sumB) / sumA\<close>, and the one of the other order is
  the float64 nearest to \<open>- D / (1 - D)\<close>.
\<close>

theorem swap_series_frac_diff:
  "grouped_frac_diff (swap_series rows)
     = map (\<lambda>(g, a, b, d). (g, b, a, frac_diff b a)) (grouped_frac_diff rows)
   \<and> (\<forall>(g, a, b, d) \<in> set (grouped_frac_diff rows).
        abs_diff b a = fneg (abs_diff a b)
        \<and> (\<forall>x y. a = Fin x \<and> b = Fin y \<longrightarrow> (frac_diff b a = NaN \<longleftrightarrow> d = NaN))
        \<and> (\<forall>x y. a = Fin x \<and> b = Fin y \<and> x \<noteq> 0 \<and> y \<noteq> 0 \<and> abs_diff a b = Fin (x - y)
              \<longrightarrow> d = round64 ((x - y) / x)
                \<and> frac_diff b a = round64 (- ((x - y) / x) / (1 - (x - y) / x))))"
proof -
  have "abs_diff b a = fneg (abs_diff a b)
        \<and> (\<forall>x y. a = Fin x \<and> b = Fin y \<longrightarrow> (frac_diff b a = NaN \<longleftrightarrow> d = NaN))
        \<and> (\<forall>x y. a = Fin x \<and> b = Fin y \<and> x \<noteq> 0 \<and> y \<noteq> 0 \<and> abs_diff a b = Fin (x - y)
              \<longrightarrow> d = round64 ((x - y) / x)
                \<and> frac_diff b a = round64 (- ((x - y) / x) / (1 - (x - y) / x)))"
    if "(g, a, b, d) \<in> set (grouped_frac_diff rows)" for g a b d
  proof -
    from grouped_frac_diff_rows [OF that]
    have fa: "is_float a" and fb: "is_float b" and d: "d = frac_diff a b" by simp_all
    have 1: "abs_diff b a = fneg (abs_diff a b)"
      unfolding abs_diff_def by (rule fsub_swap)
    have 2: "frac_diff b a = NaN \<longleftrightarrow> d = NaN" if "a = Fin x \<and> b = Fin y" for x y
      using that frac_diff_nan_iff [OF fa, of b] frac_diff_nan_iff [OF fb, of a]
      by (auto simp: d)
    have 3: "d = round64 ((x - y) / x)
             \<and> frac_diff b a = round64 (- ((x - y) / x) / (1 - (x - y) / x))"
      if h: "a = Fin x \<and> b = Fin y \<and> x \<noteq> 0 \<and> y \<noteq> 0 \<and> abs_diff a b = Fin (x - y)" for x y
    proof -
      from h have x: "x \<noteq> 0" and y: "y \<noteq> 0" by simp_all
      from h have ab: "abs_diff a b = Fin (x - y)" and a: "a = Fin x" and b: "b = Fin y"
        by blast+
      have "d = fdiv (Fin (x - y)) (Fin x)"
        unfolding d frac_diff_def ab by (simp only: a)
      with x have dq: "d = round64 ((x - y) / x)" by simp
      from ab 1 have ba: "abs_diff b a = Fin (- (x - y))" by simp
      have "frac_diff b a = fdiv (Fin (- (x - y))) (Fin y)"
        unfolding frac_diff_def ba by (simp only: b)
      with y have s: "frac_diff b a = round64 (- (x - y) / y)" by simp
      have "- (x - y) / y = - ((x - y) / x) / (1 - (x - y) / x)"
        using x y by (simp add: field_simps)
      with s dq show ?thesis by simp
    qed
    from 1 2 3 show ?thesis by blast
  qed
  with grouped_frac_diff_swap show ?thesis by blast
qed

theorem swap_series_frac_diff_witness:
  "(''X'', Fin 200, Fin 180, round64 (1 / 10)) \<in> set (grouped_frac_diff
      [(''X'', Fin 100, Fin 90), (''X'', Fin 100, Fin 90)])
   \<and> (200 :: real) \<noteq> 0 \<and> (180 :: real) \<noteq> 0
   \<and> abs_diff (Fin 200) (Fin 180) = Fin (200 - 180)
   \<and> abs_diff (Fin 180) (Fin 200) = fneg (abs_diff (Fin 200) (Fin 180))
   \<and> frac_diff (Fin 180) (Fin 200) = round64 (- (1 / 10) / (1 - 1 / 10))
   \<and> round64 (- (1 / 10) / (1 - 1 / 10)) \<noteq> NaN"
  using swap_series_frac_diff [of "[(''X'', Fin 100, Fin 90), (''X'', Fin 100, Fin 90)]"]
  by (simp add: grouped_frac_diff_def with_frac_diff_def groupby_sum2_def groupby_apply_def
      group_keys_def group_rows_def sum_skipna_def dropna_def isna_def
      frac_diff_def abs_diff_def fsub_def)

text \<open>
  Series A is 100 and series B is 90 at both timestamps of authority X. The fractional
  difference \<open>d\<close> is the float64 nearest to 1/10 (\<^verbatim>\<open>0.1\<close>), the one of the exchanged
  order the float64 nearest to -1/9 (\<^verbatim>\<open>-0.1111111111111111\<close>). The float64
  \<open>- d / (1 + d)\<close> is \<^verbatim>\<open>-0.09090909090909091\<close>; and the float64 \<open>- d / (1 - d)\<close> is
  \<^verbatim>\<open>-0.11111111111111112\<close>, the neighbour of the exchanged order's value. And with
  series A \<open>2^1023\<close> at both timestamps and series B 1, the sum of A overflows: the
  fractional difference is NaN, the one of the exchanged order \<open>-inf\<close>.
\<close>

theorem swap_formula_counterexample:
  "ba_totals (eia930_both
      [((''X'', (2019, 1, 1, 1)), Fin 100), ((''X'', (2019, 1, 1, 2)), Fin 100)]
      [((''X'', (2019, 1, 1, 1)), Fin 90), ((''X'', (2019, 1, 1, 2)), Fin 90)])
     = [(''X'', Fin 200, Fin 180, Fin (3602879701896397 / 36028797018963968))]
   \<and> ba_totals (swap_series (eia930_both
      [((''X'', (2019, 1, 1, 1)), Fin 100), ((''X'', (2019, 1, 1, 2)), Fin 100)]
      [((''X'', (2019, 1, 1, 1)), Fin 90), ((''X'', (2019, 1, 1, 2)), Fin 90)]))
     = [(''X'', Fin 180, Fin 200, Fin (- (2001599834386887 / 18014398509481984)))]
   \<and> fdiv (fneg (Fin (3602879701896397 / 36028797018963968)))
           (fadd (Fin 1) (Fin (3602879701896397 / 36028797018963968)))
     = Fin (- (3275345183542179 / 36028797018963968))
   \<and> fdiv (fneg (Fin (3602879701896397 / 36028797018963968)))
           (fsub (Fin 1) (Fin (3602879701896397 / 36028797018963968)))
     = Fin (- (8006399337547549 / 72057594037927936))
   \<and> Fin (- (2001599834386887 / 18014398509481984)) \<noteq> Fin (- (3275345183542179 / 36028797018963968))
   \<and> Fin (- (2001599834386887 / 18014398509481984)) \<noteq> Fin (- (8006399337547549 / 72057594037927936))
   \<and> ba_totals (eia930_both
        [((''Y'', (2019, 1, 1, 1)), Fin (2 ^ 1023)), ((''Y'', (2019, 1, 1, 2)), Fin (2 ^ 1023))]
        [((''Y'', (2019, 1, 1, 1)), Fin 1), ((''Y'', (2019, 1, 1, 2)), Fin 1)])
     = [(''Y'', PInf, Fin 2, NaN)]
   \<and> ba_totals (swap_series (eia930_both
        [((''Y'', (2019, 1, 1, 1)), Fin (2 ^ 1023)), ((''Y'', (2019, 1, 1, 2)), Fin (2 ^ 1023))]
        [((''Y'', (2019, 1, 1, 1)), Fin 1), ((''Y'', (2019, 1, 1, 2)), Fin 1)]))
     = [(''Y'', Fin 2, PInf, NInf)]"
proof -
  have e1: "round64 (1 / 10) = Fin (3602879701896397 / 36028797018963968)"
    using round64_eval [of "1 / 10" "- 4"]
    by (simp add: round_at_def round_half_even_def Let_def)
  have e2: "round64 (- (1 / 9)) = Fin (- (2001599834386887 / 18014398509481984))"
    using round64_eval [of "1 / 9" "- 4"]
    by (simp add: round64_minus round_at_def round_half_even_def Let_def)
  have e3: "fadd (Fin 1) (Fin (3602879701896397 / 36028797018963968))
      = Fin (2476979795053773 / 2251799813685248)"
    using round64_eval [of "1 + 3602879701896397 / 36028797018963968" 0]
    by (simp add: round_at_def round_half_even_def Let_def)
  have e4: "fdiv (Fin (- (3602879701896397 / 36028797018963968)))
                 (Fin (2476979795053773 / 2251799813685248))
      = Fin (- (3275345183542179 / 36028797018963968))"
    using round64_eval [of "3602879701896397 / 36028797018963968 / (2476979795053773 / 2251799813685248)" "- 4"]
    by (simp add: round64_minus round_at_def round_half_even_def Let_def)
  have e5: "fsub (Fin 1) (Fin (3602879701896397 / 36028797018963968))
      = Fin (8106479329266893 / 9007199254740992)"
    using round64_eval [of "1 - 3602879701896397 / 36028797018963968" "- 1"]
    by (simp add: fsub_def round_at_def round_half_even_def Let_def)
  have e6: "fdiv (Fin (- (3602879701896397 / 36028797018963968)))
                 (Fin (8106479329266893 / 9007199254740992))
      = Fin (- (8006399337547549 / 72057594037927936))"
    using round64_eval [of "3602879701896397 / 36028797018963968 / (8106479329266893 / 9007199254740992)" "- 4"]
    by (simp add: round64_minus round_at_def round_half_even_def Let_def)
  have a: "round64 (2 ^ 1023) = Fin (2 ^ 1023)"
    using round64_eval [of "2 ^ 1023" 1023]
    by (simp add: round_at_def round_half_even_def Let_def)
  have b: "round64 (2 ^ 1023 + 2 ^ 1023) = PInf"
    using round64_eval [of "2 ^ 1023 + 2 ^ 1023" 1023]
    by (simp add: round_at_def round_half_even_def Let_def)
  have 1: "ba_totals (eia930_both
      [((''X'', (2019, 1, 1, 1)), Fin 100), ((''X'', (2019, 1, 1, 2)), Fin 100)]
      [((''X'', (2019, 1, 1, 1)), Fin 90), ((''X'', (2019, 1, 1, 2)), Fin 90)])
     = [(''X'', Fin 200, Fin 180, Fin (3602879701896397 / 36028797018963968))]"
    using e1
    by (simp add: ba_totals_def eia930_both_def merge_inner_def group_rows_def
      grouped_frac_diff_def with_frac_diff_def groupby_sum2_def groupby_apply_def
      group_keys_def sum_skipna_def dropna_def isna_def frac_diff_def abs_diff_def fsub_def)
  have 2: "ba_totals (swap_series (eia930_both
      [((''X'', (2019, 1, 1, 1)), Fin 100), ((''X'', (2019, 1, 1, 2)), Fin 100)]
      [((''X'', (2019, 1, 1, 1)), Fin 90), ((''X'', (2019, 1, 1, 2)), Fin 90)]))
     = [(''X'', Fin 180, Fin 200, Fin (- (2001599834386887 / 18014398509481984)))]"
    using e2
    by (simp add: ba_totals_def eia930_both_def merge_inner_def group_rows_def swap_series_def
      grouped_frac_diff_def with_frac_diff_def groupby_sum2_def groupby_apply_def
      group_keys_def sum_skipna_def dropna_def isna_def frac_diff_def abs_diff_def fsub_def)
  have 3: "fdiv (fneg (Fin (3602879701896397 / 36028797018963968)))
           (fadd (Fin 1) (Fin (3602879701896397 / 36028797018963968)))
     = Fin (- (3275345183542179 / 36028797018963968))"
    by (simp only: e3 fneg.simps e4)
  have 4: "fdiv (fneg (Fin (3602879701896397 / 36028797018963968)))
           (fsub (Fin 1) (Fin (3602879701896397 / 36028797018963968)))
     = Fin (- (8006399337547549 / 72057594037927936))"
    by (simp only: e5 fneg.simps e6)
  have 5: "ba_totals (eia930_both
        [((''Y'', (2019, 1, 1, 1)), Fin (2 ^ 1023)), ((''Y'', (2019, 1, 1, 2)), Fin (2 ^ 1023))]
        [((''Y'', (2019, 1, 1, 1)), Fin 1), ((''Y'', (2019, 1, 1, 2)), Fin 1)])
     = [(''Y'', PInf, Fin 2, NaN)]"
    using a b
    by (simp add: ba_totals_def eia930_both_def merge_inner_def group_rows_def
      grouped_frac_diff_def with_frac_diff_def groupby_sum2_def groupby_apply_def
      group_keys_def sum_skipna_def dropna_def isna_def frac_diff_def abs_diff_def fsub_def)
  have 6: "ba_totals (swap_series (eia930_both
        [((''Y'', (2019, 1, 1, 1)), Fin (2 ^ 1023)), ((''Y'', (2019, 1, 1, 2)), Fin (2 ^ 1023))]
        [((''Y'', (2019, 1, 1, 1)), Fin 1), ((''Y'', (2019, 1, 1, 2)), Fin 1)]))
     = [(''Y'', Fin 2, PInf, NInf)]"
    using a b
    by (simp add: ba_totals_def eia930_both_def merge_inner_def group_rows_def swap_series_def
      grouped_frac_diff_def with_frac_diff_def groupby_sum2_def groupby_apply_def
      group_keys_def sum_skipna_def dropna_def isna_def frac_diff_def abs_diff_def fsub_def)
  have 7: "Fin (- (2001599834386887 / 18014398509481984)) \<noteq> Fin (- (3275345183542179 / 36028797018963968))"
    by simp
  have 8: "Fin (- (2001599834386887 / 18014398509481984)) \<noteq> Fin (- (8006399337547549 / 72057594037927936))"
    by simp
  show ?thesis
    by (intro conjI 1 2 3 4 5 6 7 8)
qed

section \<open>Ranking\<close>

lemma inj_fkey: "fkey a = fkey b \<Longrightarrow> a = b"
  by (cases a; cases b) auto

lemma filter_eq_single: "distinct xs \<Longrightarrow> k \<in> set xs \<Longrightarrow> filter (\<lambda>x. k = x) xs = [k]"
  by (induction xs) (auto simp: filter_empty_conv)

lemma sort_key_rev_distinct:
  assumes "distinct (map f xs)"
  shows "sort_key f (rev xs) = sort_key f xs"
proof (rule properties_for_sort_key)
  show "mset (sort_key f xs) = mset (rev xs)" by simp
  show "sorted (map f (sort_key f xs))" by simp
  fix k assume "k \<in> set (sort_key f xs)"
  then have k: "k \<in> set xs" by simp
  have inj: "inj_on f (set xs)" using assms by (simp add: distinct_map)
  have d: "distinct xs" using assms by (simp add: distinct_map)
  have eq: "(f k = f x) = (k = x)" if "x \<in> set xs" for x
    using inj k that by (auto dest: inj_onD)
  have "filter (\<lambda>x. f k = f x) (rev xs) = rev (filter (\<lambda>x. f k = f x) xs)"
    by (simp add: rev_filter)
  also have "filter (\<lambda>x. f k = f x) xs = filter (\<lambda>x. k = x) xs"
    using eq by (intro filter_cong) auto
  also have "\<dots> = [k]"
    using d k by (rule filter_eq_single)
  finally have r: "filter (\<lambda>x. f k = f x) (rev xs) = [k]" by simp
  have "filter (\<lambda>x. f k = f x) (sort_key f xs) = sort_key f (filter (\<lambda>x. f k = f x) xs)"
    by (simp add: filter_sort)
  also have "filter (\<lambda>x. f k = f x) xs = filter (\<lambda>x. k = x) xs"
    using eq by (intro filter_cong) auto
  also have "\<dots> = [k]"
    using d k by (rule filter_eq_single)
  finally show "filter (\<lambda>x. f k = f x) (sort_key f xs) = filter (\<lambda>x. f k = f x) (rev xs)"
    using r by simp
qed

lemma sort_values_True:
  "sort_values True col rows
     = sort_key (\<lambda>r. fkey (col r)) (filter (\<lambda>r. \<not> isna (col r)) rows)
       @ filter (\<lambda>r. isna (col r)) rows"
  by (simp add: sort_values_def)

lemma sort_values_False:
  "sort_values False col rows
     = rev (sort_key (\<lambda>r. fkey (col r)) (rev (filter (\<lambda>r. \<not> isna (col r)) rows)))
       @ filter (\<lambda>r. isna (col r)) rows"
  by (simp add: sort_values_def)


lemma mset_sort_values: "mset (sort_values asc col rows) = mset rows"
  by (cases asc) (simp_all add: sort_values_True sort_values_False)




text \<open>
  Claim C8, as \<^verbatim>\<open>sort_values\<close> computes it. When the records whose sort field is not
  NaN have pairwise different values, the descending and the ascending ranking mirror each
  other on these records: with \<open>m\<close> of them, position \<open>i < m\<close> of the descending
  ranking holds the record at position \<open>m - 1 - i\<close> of the ascending one. The NaN
  records are not mirrored: they fill the positions from \<open>m\<close> on, the same record at the
  same position in both rankings. Nothing is promised for records with equal values.
\<close>

theorem sort_values_mirror:
  assumes "distinct (map col (filter (\<lambda>r. \<not> isna (col r)) rows))"
  shows "(\<forall>i < length (filter (\<lambda>r. \<not> isna (col r)) rows).
            sort_values False col rows ! i
              = sort_values True col rows ! (length (filter (\<lambda>r. \<not> isna (col r)) rows) - 1 - i))
       \<and> (\<forall>i. length (filter (\<lambda>r. \<not> isna (col r)) rows) \<le> i \<and> i < length rows
            \<longrightarrow> sort_values False col rows ! i = sort_values True col rows ! i)"
proof -
  let ?nn = "filter (\<lambda>r. \<not> isna (col r)) rows"
  let ?nans = "filter (\<lambda>r. isna (col r)) rows"
  let ?k = "\<lambda>r. fkey (col r)"
  have "distinct ?nn" and "inj_on col (set ?nn)"
    using assms by (simp_all only: distinct_map)
  moreover from this have "inj_on ?k (set ?nn)"
    by (auto simp: inj_on_def dest: inj_fkey)
  ultimately have "distinct (map ?k ?nn)"
    by (simp only: distinct_map simp_thms)
  then have "sort_key ?k (rev ?nn) = sort_key ?k ?nn"
    by (rule sort_key_rev_distinct)
  then have desc: "sort_values False col rows = rev (sort_key ?k ?nn) @ ?nans"
    by (simp add: sort_values_False)
  have asc: "sort_values True col rows = sort_key ?k ?nn @ ?nans"
    by (simp add: sort_values_True)
  define S where "S = sort_key ?k ?nn"
  define n where "n = length ?nn"
  have l: "length S = n" by (simp add: S_def n_def)
  have 1: "sort_values False col rows ! i = sort_values True col rows ! (n - 1 - i)"
    if "i < n" for i
  proof -
    from that l have i: "i < length (rev S)" and m: "n - 1 - i < length S" by simp_all
    have "(rev S @ ?nans) ! i = rev S ! i"
      using i by (simp only: nth_append if_True)
    also have "\<dots> = S ! (length S - Suc i)"
      using that l by (simp only: rev_nth)
    also have "\<dots> = S ! (n - 1 - i)"
      using l by simp
    also have "\<dots> = (S @ ?nans) ! (n - 1 - i)"
      using m by (simp only: nth_append if_True)
    finally show ?thesis
      unfolding desc asc S_def .
  qed
  have 2: "sort_values False col rows ! i = sort_values True col rows ! i"
    if "n \<le> i" for i
  proof -
    from that l have "\<not> i < length (rev S)" and "\<not> i < length S" by simp_all
    then have "(rev S @ ?nans) ! i = (S @ ?nans) ! i"
      by (simp add: nth_append)
    then show ?thesis
      unfolding desc asc S_def .
  qed
  from 1 2 show ?thesis unfolding n_def by blast
qed

theorem sort_values_mirror_witness:
  "distinct (map frac_col (filter (\<lambda>r. \<not> isna (frac_col r))
      [(''Z'', Fin 0 :: val, Fin 0 :: val, NaN), (''Y'', Fin 0, Fin 5, NInf),
       (''X'', Fin 200, Fin 180, Fin (1 / 10))]))
   \<and> (0 :: nat) < length (filter (\<lambda>r. \<not> isna (frac_col r))
      [(''Z'', Fin 0 :: val, Fin 0 :: val, NaN), (''Y'', Fin 0, Fin 5, NInf),
       (''X'', Fin 200, Fin 180, Fin (1 / 10))])
   \<and> sort_values False frac_col
      [(''Z'', Fin 0, Fin 0, NaN), (''Y'', Fin 0, Fin 5, NInf), (''X'', Fin 200, Fin 180, Fin (1 / 10))] ! 0
     = sort_values True frac_col
      [(''Z'', Fin 0, Fin 0, NaN), (''Y'', Fin 0, Fin 5, NInf), (''X'', Fin 200, Fin 180, Fin (1 / 10))] ! 1"
  using sort_values_mirror [of frac_col
      "[(''Z'', Fin 0, Fin 0, NaN), (''Y'', Fin 0, Fin 5, NInf), (''X'', Fin 200, Fin 180, Fin (1 / 10))]"]
  by (simp add: frac_col_def isna_def)

text \<open>
  The records of X (sums 200 and 180) and of Z (sums 0 and 0, so NaN), ranked both ways:
  position 0 of the descending ranking holds X, position 1 of the ascending ranking
  holds Z. And the records of W (sums 100 and 90) and of X, both with the float64
  nearest to 1/10 as their value:
  sorted stably, both rankings keep them in table order, so that position 0 of the
  descending ranking holds W and position 1 of the ascending ranking holds X.
\<close>

theorem rank_mirror_counterexample:
  "sort_values False frac_col (ba_totals (eia930_both
      [((''X'', (2019, 1, 1, 1)), Fin 200), ((''Z'', (2019, 1, 1, 1)), Fin 0)]
      [((''X'', (2019, 1, 1, 1)), Fin 180), ((''Z'', (2019, 1, 1, 1)), Fin 0)])) ! 0
    = (''X'', Fin 200, Fin 180, round64 (1 / 10))
  \<and> sort_values True frac_col (ba_totals (eia930_both
      [((''X'', (2019, 1, 1, 1)), Fin 200), ((''Z'', (2019, 1, 1, 1)), Fin 0)]
      [((''X'', (2019, 1, 1, 1)), Fin 180), ((''Z'', (2019, 1, 1, 1)), Fin 0)])) ! (2 - 1 - 0)
    = (''Z'', Fin 0, Fin 0, NaN)
  \<and> length (ba_totals (eia930_both
      [((''X'', (2019, 1, 1, 1)), Fin 200), ((''Z'', (2019, 1, 1, 1)), Fin 0)]
      [((''X'', (2019, 1, 1, 1)), Fin 180), ((''Z'', (2019, 1, 1, 1)), Fin 0)])) = 2
  \<and> (''X'', Fin 200 :: val, Fin 180 :: val, round64 (1 / 10)) \<noteq> (''Z'', Fin 0, Fin 0, NaN)
  \<and> sort_values False frac_col (ba_totals (eia930_both
      [((''W'', (2019, 1, 1, 1)), Fin 100), ((''X'', (2019, 1, 1, 1)), Fin 200)]
      [((''W'', (2019, 1, 1, 1)), Fin 90), ((''X'', (2019, 1, 1, 1)), Fin 180)])) ! 0
    = (''W'', Fin 100, Fin 90, round64 (1 / 10))
  \<and> sort_values True frac_col (ba_totals (eia930_both
      [((''W'', (2019, 1, 1, 1)), Fin 100), ((''X'', (2019, 1, 1, 1)), Fin 200)]
      [((''W'', (2019, 1, 1, 1)), Fin 90), ((''X'', (2019, 1, 1, 1)), Fin 180)])) ! (2 - 1 - 0)
    = (''X'', Fin 200, Fin 180, round64 (1 / 10))"
proof -
  have "round64 (1 / 10) = Fin (3602879701896397 / 36028797018963968)"
    using round64_eval [of "1 / 10" "- 4"]
    by (simp add: round_at_def round_half_even_def Let_def)
  then show ?thesis
    by (simp add: ba_totals_def eia930_both_def merge_inner_def group_rows_def
      grouped_frac_diff_def with_frac_diff_def groupby_sum2_def groupby_apply_def
      group_keys_def sum_skipna_def dropna_def frac_diff_def abs_diff_def fsub_def
      sort_values_def frac_col_def isna_def)
qed

section \<open>Imputation rates\<close>

lemma imputation_rate_bounds:
  assumes "(k, d) \<in> set (imputation_rate rows)"
  shows "\<exists>q. d = Fin q \<and> 0 \<le> q \<and> q \<le> 1"
proof -
  from assms have k: "k \<in> fst ` set rows" and d: "d = notnull_mean (group_rows k rows)"
    by (auto simp: imputation_rate_def groupby_apply_def set_group_keys)
  let ?xs = "group_rows k rows"
  from k have ne: "?xs \<noteq> []"
    by (auto simp: group_rows_def filter_empty_conv)
  then have pos: "0 < length ?xs" by simp
  have "length (filter (\<lambda>x. x \<noteq> None) ?xs) \<le> length ?xs" by (rule length_filter_le)
  then have "real (length (filter (\<lambda>x. x \<noteq> None) ?xs)) / real (length ?xs) \<le> 1"
    using pos by (simp add: divide_le_eq_1)
  moreover have "0 \<le> real (length (filter (\<lambda>x. x \<noteq> None) ?xs)) / real (length ?xs)"
    by simp
  ultimately have "\<exists>q. round64 (real (length (filter (\<lambda>x. x \<noteq> None) ?xs)) / real (length ?xs))
      = Fin q \<and> 0 \<le> q \<and> q \<le> 1"
    by (intro round64_unit)
  with ne d show ?thesis by (simp add: notnull_mean_def)
qed

lemma notnull_mean_group:
  "k \<in> fst ` set rows \<Longrightarrow>
   notnull_mean (group_rows k rows)
     = round64 (real (length (filter (\<lambda>r. fst r = k \<and> snd r \<noteq> None) rows))
                / real (length (filter (\<lambda>r. fst r = k) rows)))"
proof -
  assume k: "k \<in> fst ` set rows"
  have "filter (\<lambda>x. x \<noteq> None) (group_rows k rows)
      = map snd (filter (\<lambda>r. fst r = k \<and> snd r \<noteq> None) rows)"
    by (induction rows) (auto simp: group_rows_def)
  moreover from k have "group_rows k rows \<noteq> []"
    by (auto simp: group_rows_def filter_empty_conv)
  ultimately show ?thesis
    by (simp add: notnull_mean_def) (simp add: group_rows_def)
qed

text \<open>
  Claim C7. The table of imputation rates of cells 13 and 23, sorted either way, has one
  entry for every group that has a row and none for any other group. The entry of a
  group is the number of its rows whose flag is not null divided by the number of its
  rows, as float64 division gives it: the float64 nearest to the quotient, a number
  between 0 and 1; no entry is NaN. For 3 of 10 rows it is the float64 \<^verbatim>\<open>0.3\<close>.
\<close>

theorem imputation_rate_fraction:
  "map_of (sort_values asc snd (imputation_rate rows)) g
     = (if g \<in> fst ` set rows
        then Some (round64 (real (length (filter (\<lambda>r. fst r = g \<and> snd r \<noteq> None) rows))
                            / real (length (filter (\<lambda>r. fst r = g) rows))))
        else None)
   \<and> distinct (map fst (sort_values asc snd (imputation_rate rows)))
   \<and> (\<forall>(k, d) \<in> set (sort_values asc snd (imputation_rate rows)).
         \<exists>q. d = Fin q \<and> 0 \<le> q \<and> q \<le> 1)"
proof -
  let ?out = "sort_values asc snd (imputation_rate rows)"
  have ms: "mset ?out = mset (imputation_rate rows)" by (rule mset_sort_values)
  then have st: "set ?out = set (imputation_rate rows)" by (rule mset_eq_setD)
  have d0: "distinct (map fst (imputation_rate rows))"
    by (simp add: imputation_rate_def groupby_apply_def comp_def distinct_group_keys)
  have "mset (map fst ?out) = mset (map fst (imputation_rate rows))"
    using ms by simp
  then have d1: "distinct (map fst ?out)"
    using d0 by (metis mset_eq_imp_distinct_iff)
  have "map_of ?out = map_of (imputation_rate rows)"
    using d0 d1 st by (simp add: map_of_inject_set)
  then have m: "map_of ?out g
     = (if g \<in> fst ` set rows
        then Some (round64 (real (length (filter (\<lambda>r. fst r = g \<and> snd r \<noteq> None) rows))
                            / real (length (filter (\<lambda>r. fst r = g) rows))))
        else None)"
    by (simp add: imputation_rate_def map_of_groupby_apply notnull_mean_group)
  have b: "\<forall>(k, d) \<in> set ?out. \<exists>q. d = Fin q \<and> 0 \<le> q \<and> q \<le> 1"
    unfolding st using imputation_rate_bounds by fastforce
  from m d1 b show ?thesis by blast
qed

theorem imputation_rate_fraction_witness:
  "(''Z'', 2019) \<in> fst ` set
       [((''Z'', 2019 :: nat), Some ''3''), ((''Z'', 2019), None), ((''Z'', 2019), None),
        ((''Z'', 2019), Some ''1''), ((''Z'', 2019), None), ((''Z'', 2019), None),
        ((''Z'', 2019), None), ((''Z'', 2019), Some ''1''), ((''Z'', 2019), None),
        ((''Z'', 2019), None)]
   \<and> map_of (sort_values False snd (imputation_rate
       [((''Z'', 2019 :: nat), Some ''3''), ((''Z'', 2019), None), ((''Z'', 2019), None),
        ((''Z'', 2019), Some ''1''), ((''Z'', 2019), None), ((''Z'', 2019), None),
        ((''Z'', 2019), None), ((''Z'', 2019), Some ''1''), ((''Z'', 2019), None),
        ((''Z'', 2019), None)])) (''Z'', 2019)
      = Some (round64 (3 / 10))
   \<and> round64 (3 / 10) = Fin (5404319552844595 / 18014398509481984)
   \<and> map_of (sort_values False snd (imputation_rate
       [((''Z'', 2019 :: nat), Some ''3''), ((''Z'', 2019), None), ((''Z'', 2019), None),
        ((''Z'', 2019), Some ''1''), ((''Z'', 2019), None), ((''Z'', 2019), None),
        ((''Z'', 2019), None), ((''Z'', 2019), Some ''1''), ((''Z'', 2019), None),
        ((''Z'', 2019), None)])) (''W'', 2019)
      = None"
  using imputation_rate_fraction [of False
       "[((''Z'', 2019 :: nat), Some ''3''), ((''Z'', 2019), None), ((''Z'', 2019), None),
        ((''Z'', 2019), Some ''1''), ((''Z'', 2019), None), ((''Z'', 2019), None),
        ((''Z'', 2019), None), ((''Z'', 2019), Some ''1''), ((''Z'', 2019), None),
        ((''Z'', 2019), None)]" "(''Z'', 2019)"]
    imputation_rate_fraction [of False
       "[((''Z'', 2019 :: nat), Some ''3''), ((''Z'', 2019), None), ((''Z'', 2019), None),
        ((''Z'', 2019), Some ''1''), ((''Z'', 2019), None), ((''Z'', 2019), None),
        ((''Z'', 2019), None), ((''Z'', 2019), Some ''1''), ((''Z'', 2019), None),
        ((''Z'', 2019), None)]" "(''W'', 2019)"]
    round64_eval [of "3 / 10" "- 2"]
  by (simp add: round_at_def round_half_even_def Let_def)

end
